theory Spec2Isabelle
  imports Complex_Main "HOL-Library.AList" "HOL-Library.Sublist"
begin

section \<open>Data model\<close>

text \<open>
  The service is written in TypeScript; the three admission algorithms run a Lua script
  inside the shared store. Numbers of TypeScript and Lua are IEEE doubles. Timestamps,
  limits, windows and counters are integers in every schema of the program
  (\<open>z.number().int()\<close>) and are modelled as \<open>int\<close>; the fractional quantities (tokens of
  a bucket, the weighted estimate of the sliding window, the usage percentage) are
  doubles: a double is modelled as the rational it denotes, and every sum, difference,
  product and quotient on doubles is rounded to the nearest double, as the machine does
  (section ``Double arithmetic''). Integers stay below \<open>2^53\<close>, where doubles hold them
  and add, subtract and multiply them exactly.
\<close>

datatype AlgorithmType = token_bucket | fixed_window | sliding_window

datatype KeyType = KT_user | KT_ip | KT_endpoint | KT_custom

text \<open>\<open>KeyConfigSchema\<close> of models/rule.ts.\<close>

record KeyConfig =
  kc_type :: KeyType
  kc_value :: string

text \<open>\<open>RuleSchema\<close> of models/rule.ts; dates are milliseconds since the epoch.\<close>

record Rule =
  rule_id :: string
  rule_name :: string
  rule_algorithm :: AlgorithmType
  rule_limit :: int
  rule_window :: int
  rule_keys :: "KeyConfig list"
  rule_webhookUrl :: "string option"
  rule_thresholds :: "int list"
  rule_enabled :: bool
  rule_createdAt :: "int option"
  rule_updatedAt :: "int option"

text \<open>\<open>CreateRuleSchema\<close>: the rule without the generated fields, \<open>id\<close> optional.
  \<open>thresholds\<close> and \<open>enabled\<close> may be undefined in what reaches \<open>createRule\<close>, which
  tests them with \<open>??\<close>.\<close>

record CreateRuleRequest =
  cr_id :: "string option"
  cr_name :: string
  cr_algorithm :: AlgorithmType
  cr_limit :: int
  cr_window :: int
  cr_keys :: "KeyConfig list"
  cr_webhookUrl :: "string option"
  cr_thresholds :: "int list option"
  cr_enabled :: "bool option"

text \<open>\<open>CheckResultSchema\<close> and \<open>CheckRequestSchema\<close> of models/result.ts.\<close>

record CheckResult =
  res_allowed :: bool
  res_limit :: int
  res_remaining :: int
  res_resetAt :: int
  res_retryAfter :: "int option"
  res_currentUsage :: int

record CheckRequest =
  req_key :: string
  req_endpoint :: "string option"
  req_ruleId :: "string option"
  req_algorithm :: "AlgorithmType option"
  req_limit :: "int option"
  req_window :: "int option"

text \<open>Every failure of the program is a thrown \<open>Error\<close>; the model names them.\<close>

datatype error =
    RuleNotFound string
  | RuleDisabled string
  | NoMatchingRule
  | ValidationError
  | ScriptError

section \<open>The store\<close>

text \<open>
  The store is Redis. A key holds a string that the scripts read as a number (the window
  counters), a string that is the JSON of a rule, or a hash with the fields \<open>tokens\<close> and
  \<open>last_update\<close> (a bucket). Beside the value the store keeps the time to live, in
  seconds, that the last \<open>EXPIRE\<close> gave the key. The removal of a key whose time has
  run out is an event of the store and not a step of the program.
  \<open>JSON.stringify\<close> followed by \<open>JSON.parse\<close> is modelled as keeping the rule.
\<close>

datatype redis_value = Counter int | Bucket rat int | RuleJson Rule

type_synonym Storage = "string \<Rightarrow> (redis_value \<times> int option) option"

text \<open>\<open>GET\<close>: the string at the key, nil when the key is absent, an error on a hash.\<close>

definition redis_GET :: "Storage \<Rightarrow> string \<Rightarrow> error + redis_value option" where
  "redis_GET st k =
     (case st k of
        None \<Rightarrow> Inr None
      | Some (Bucket t u, ttl) \<Rightarrow> Inl ScriptError
      | Some (v, ttl) \<Rightarrow> Inr (Some v))"

text \<open>Lua's \<open>tonumber\<close> on a string of the store: nil on a string that is no number.\<close>

definition tonumber :: "redis_value \<Rightarrow> int option" where
  "tonumber v = (case v of Counter n \<Rightarrow> Some n | _ \<Rightarrow> None)"

text \<open>\<open>INCR\<close>: an absent key counts from 0 and gets no time to live; the time to live of
  an existing key is kept; a value that is no integer is an error.\<close>

definition redis_INCR :: "Storage \<Rightarrow> string \<Rightarrow> error + (int \<times> Storage)" where
  "redis_INCR st k =
     (case st k of
        None \<Rightarrow> Inr (1, st(k \<mapsto> (Counter 1, None)))
      | Some (Counter n, ttl) \<Rightarrow> Inr (n + 1, st(k \<mapsto> (Counter (n + 1), ttl)))
      | Some (v, ttl) \<Rightarrow> Inl ScriptError)"

text \<open>\<open>EXPIRE\<close>: sets the time to live of an existing key; a time that is not positive
  deletes the key.\<close>

definition redis_EXPIRE :: "Storage \<Rightarrow> string \<Rightarrow> int \<Rightarrow> Storage" where
  "redis_EXPIRE st k secs =
     (case st k of
        None \<Rightarrow> st
      | Some (v, ttl) \<Rightarrow> if secs \<le> 0 then st(k := None) else st(k \<mapsto> (v, Some secs)))"

text \<open>\<open>HMGET key tokens last_update\<close>: both fields, nil for an absent key.\<close>

definition redis_HMGET :: "Storage \<Rightarrow> string \<Rightarrow> error + (rat \<times> int) option" where
  "redis_HMGET st k =
     (case st k of
        None \<Rightarrow> Inr None
      | Some (Bucket t u, ttl) \<Rightarrow> Inr (Some (t, u))
      | Some (v, ttl) \<Rightarrow> Inl ScriptError)"

text \<open>\<open>HMSET key tokens t last_update u\<close>: writes both fields, keeps the time to live.\<close>

definition redis_HMSET :: "Storage \<Rightarrow> string \<Rightarrow> rat \<Rightarrow> int \<Rightarrow> error + Storage" where
  "redis_HMSET st k t u =
     (case st k of
        None \<Rightarrow> Inr (st(k \<mapsto> (Bucket t u, None)))
      | Some (Bucket t0 u0, ttl) \<Rightarrow> Inr (st(k \<mapsto> (Bucket t u, ttl)))
      | Some (v, ttl) \<Rightarrow> Inl ScriptError)"

text \<open>\<open>RedisStorage.set\<close> without a time to live: \<open>SET\<close> replaces whatever the key held.\<close>

definition storage_set :: "Storage \<Rightarrow> string \<Rightarrow> redis_value \<Rightarrow> Storage" where
  "storage_set st k v = st(k \<mapsto> (v, None))"

section \<open>Numbers in store keys\<close>

text \<open>The template strings put the window start into the key in decimal.\<close>

fun digits :: "nat \<Rightarrow> string" where
  "digits n = (if n < 10 then [char_of (48 + n)]
               else digits (n div 10) @ [char_of (48 + n mod 10)])"

declare digits.simps [simp del]

definition show_int :: "int \<Rightarrow> string" where
  "show_int i = (if i < 0 then CHR ''-'' # digits (nat (- i)) else digits (nat i))"

text \<open>The inverse of \<open>digits\<close>, used only to show that the rendering is injective.\<close>

definition undigits :: "string \<Rightarrow> nat" where
  "undigits s = foldl (\<lambda>a c. a * 10 + (of_char c - 48)) 0 s"

section \<open>Fixed window\<close>

text \<open>\<open>Math.floor(now / (window * 1000)) * (window * 1000)\<close>, for a positive window.\<close>

definition windowStart_of :: "int \<Rightarrow> int \<Rightarrow> int" where
  "windowStart_of now window = (now div (window * 1000)) * (window * 1000)"

definition fixed_redisKey :: "string \<Rightarrow> int \<Rightarrow> string" where
  "fixed_redisKey key windowStart = ''rl:fixed_window:'' @ key @ '':'' @ show_int windowStart"

text \<open>The Lua script of \<open>FixedWindowLimiter.check\<close>; the reply is \<open>{allowed, new_count}\<close>.\<close>

definition fixed_window_script ::
  "string \<Rightarrow> int \<Rightarrow> int \<Rightarrow> Storage \<Rightarrow> error + ((int \<times> int) \<times> Storage)" where
  "fixed_window_script k limit window st =
     (case redis_GET st k of
        Inl e \<Rightarrow> Inl e
      | Inr got \<Rightarrow>
          (case (case got of None \<Rightarrow> Some 0 | Some v \<Rightarrow> tonumber v) of
             None \<Rightarrow> Inl ScriptError
           | Some current \<Rightarrow>
               if current < limit then
                 (case redis_INCR st k of
                    Inl e \<Rightarrow> Inl e
                  | Inr (new_count, st1) \<Rightarrow> Inr ((1, new_count), redis_EXPIRE st1 k window))
               else Inr ((0, current), st)))"

definition FixedWindowLimiter_check ::
  "int \<Rightarrow> string \<Rightarrow> int \<Rightarrow> int \<Rightarrow> Storage \<Rightarrow> error + (CheckResult \<times> Storage)" where
  "FixedWindowLimiter_check now key limit window st =
     (let windowStart = windowStart_of now window;
          redisKey = fixed_redisKey key windowStart
      in case fixed_window_script redisKey limit window st of
           Inl e \<Rightarrow> Inl e
         | Inr ((allowed, currentCount), st') \<Rightarrow>
             (let remaining = max 0 (limit - currentCount);
                  resetAt = windowStart + window * 1000;
                  retryAfter = (if allowed = 0
                                then Some \<lceil>(of_int (resetAt - now) :: rat) / 1000\<rceil>
                                else None)
              in Inr (\<lparr>res_allowed = (allowed = 1), res_limit = limit,
                        res_remaining = remaining, res_resetAt = resetAt,
                        res_retryAfter = retryAfter, res_currentUsage = currentCount\<rparr>,
                      st')))"

text \<open>A sequence of checks on one subject, at the given times, one after the other.\<close>

fun fixed_run ::
  "string \<Rightarrow> int \<Rightarrow> int \<Rightarrow> int list \<Rightarrow> Storage \<Rightarrow> error + (CheckResult list \<times> Storage)" where
  "fixed_run key limit window [] st = Inr ([], st)"
| "fixed_run key limit window (now # ts) st =
     (case FixedWindowLimiter_check now key limit window st of
        Inl e \<Rightarrow> Inl e
      | Inr (r, st1) \<Rightarrow>
          (case fixed_run key limit window ts st1 of
             Inl e \<Rightarrow> Inl e
           | Inr (rs, st2) \<Rightarrow> Inr (r # rs, st2)))"

text \<open>What \<open>tonumber(redis.call('GET', key) or 0)\<close> yields from the reply of \<open>GET\<close>:
  0 for an absent key, nil for a string that is no number.\<close>

definition tonumber_or0 :: "redis_value option \<Rightarrow> int option" where
  "tonumber_or0 got = (case got of None \<Rightarrow> Some 0 | Some v \<Rightarrow> tonumber v)"


section \<open>Double arithmetic\<close>

text \<open>
  IEEE 754 binary64 with rounding to nearest, ties to even. A finite double is an
  integer multiple of \<open>2^q\<close> with a significand of at most 53 bits; for a number \<open>x\<close>
  with \<open>2^e \<le> |x| < 2^(e+1)\<close> the spacing of the doubles around it is \<open>2^(e - 52)\<close>, and
  below \<open>2^(-1022)\<close> it stays at \<open>2^(-1074)\<close> (subnormal numbers). \<open>exponent_of\<close>
  finds \<open>e\<close> within the range of the format, counting up from 0 or down from \<open>-1\<close>.
  Infinities and NaN are not modelled: the numbers of the program are far below
  \<open>2^1024\<close>, and no divisor is 0 where limit and window are positive.
\<close>

fun exp_up :: "nat \<Rightarrow> rat \<Rightarrow> int \<Rightarrow> int" where
  "exp_up 0 x e = e"
| "exp_up (Suc n) x e = (if x < 2 powi (e + 1) then e else exp_up n x (e + 1))"

fun exp_down :: "nat \<Rightarrow> rat \<Rightarrow> int \<Rightarrow> int" where
  "exp_down 0 x e = e"
| "exp_down (Suc n) x e = (if 2 powi e \<le> x then e else exp_down n x (e - 1))"

definition exponent_of :: "rat \<Rightarrow> int" where
  "exponent_of x =
     (if 1 \<le> \<bar>x\<bar> then exp_up 1023 \<bar>x\<bar> 0 else exp_down 1021 \<bar>x\<bar> (- 1))"

text \<open>The nearest integer, a tie going to the even one.\<close>

definition round_half_even :: "rat \<Rightarrow> int" where
  "round_half_even y =
     (let f = \<lfloor>y\<rfloor>; r = y - of_int f
      in if r < 1 / 2 then f else if 1 / 2 < r then f + 1 else if even f then f else f + 1)"

definition round_double :: "rat \<Rightarrow> rat" where
  "round_double x =
     (if x = 0 then 0
      else (let q = exponent_of x - 52
            in of_int (round_half_even (x / 2 powi q)) * 2 powi q))"

text \<open>The four operations of Lua and JavaScript on doubles. Where the window limiters
  take the ceiling of a difference of milliseconds divided by 1000 the quotient is left
  exact: it is an integer or at least \<open>1/1000\<close> away from one, further than rounding
  moves it.\<close>

definition fadd :: "rat \<Rightarrow> rat \<Rightarrow> rat" where
  "fadd x y = round_double (x + y)"

definition fsub :: "rat \<Rightarrow> rat \<Rightarrow> rat" where
  "fsub x y = round_double (x - y)"

definition fmul :: "rat \<Rightarrow> rat \<Rightarrow> rat" where
  "fmul x y = round_double (x * y)"

definition fdiv :: "rat \<Rightarrow> rat \<Rightarrow> rat" where
  "fdiv x y = round_double (x / y)"

section \<open>Sliding window\<close>

definition sliding_redisKey :: "string \<Rightarrow> int \<Rightarrow> string" where
  "sliding_redisKey key w = ''rl:sliding_window:'' @ key @ '':'' @ show_int w"

text \<open>The Lua script of \<open>SlidingWindowLimiter.check\<close>; the reply is
  \<open>{allowed, math.floor(estimated_count), new_count}\<close>. Arithmetic on nil is an error.
  \<open>now - current_window\<close> and \<open>window * 1000\<close> are integers; the quotient, the
  difference from 1, the product and the sum are rounded.\<close>

definition sliding_window_script ::
  "string \<Rightarrow> string \<Rightarrow> int \<Rightarrow> int \<Rightarrow> int \<Rightarrow> int \<Rightarrow> Storage
     \<Rightarrow> error + ((int \<times> int \<times> int) \<times> Storage)" where
  "sliding_window_script current_key previous_key limit window now current_window st =
     (case redis_GET st current_key of
        Inl e \<Rightarrow> Inl e
      | Inr got_current \<Rightarrow>
     (case redis_GET st previous_key of
        Inl e \<Rightarrow> Inl e
      | Inr got_previous \<Rightarrow>
     (case (tonumber_or0 got_current, tonumber_or0 got_previous) of
        (Some current_count, Some previous_count) \<Rightarrow>
          (let elapsed = fdiv (of_int (now - current_window)) (of_int (window * 1000));
               weighted_previous = fmul (of_int previous_count) (fsub 1 elapsed);
               estimated_count = fadd weighted_previous (of_int current_count)
           in if estimated_count < of_int limit then
                (case redis_INCR st current_key of
                   Inl e \<Rightarrow> Inl e
                 | Inr (new_count, st1) \<Rightarrow>
                     Inr ((1, \<lfloor>estimated_count\<rfloor>, new_count),
                          redis_EXPIRE st1 current_key (window * 2)))
              else Inr ((0, \<lfloor>estimated_count\<rfloor>, current_count), st))
      | _ \<Rightarrow> Inl ScriptError)))"

definition SlidingWindowLimiter_check ::
  "int \<Rightarrow> string \<Rightarrow> int \<Rightarrow> int \<Rightarrow> Storage \<Rightarrow> error + (CheckResult \<times> Storage)" where
  "SlidingWindowLimiter_check now key limit window st =
     (let currentWindow = windowStart_of now window;
          previousWindow = currentWindow - window * 1000;
          currentKey = sliding_redisKey key currentWindow;
          previousKey = sliding_redisKey key previousWindow
      in case sliding_window_script currentKey previousKey limit window now currentWindow st of
           Inl e \<Rightarrow> Inl e
         | Inr ((allowed, estimatedCount, new_count), st') \<Rightarrow>
             (let remaining = max 0 (limit - estimatedCount);
                  resetAt = currentWindow + window * 1000;
                  retryAfter = (if allowed = 0
                                then Some \<lceil>(of_int (resetAt - now) :: rat) / 1000\<rceil>
                                else None)
              in Inr (\<lparr>res_allowed = (allowed = 1), res_limit = limit,
                        res_remaining = remaining, res_resetAt = resetAt,
                        res_retryAfter = retryAfter, res_currentUsage = estimatedCount\<rparr>,
                      st')))"

section \<open>Token bucket\<close>

definition bucket_redisKey :: "string \<Rightarrow> string" where
  "bucket_redisKey key = ''rl:token_bucket:'' @ key"

text \<open>The store turns a Lua number of a script's reply into an integer by dropping its
  fraction; \<open>math.floor(remaining)\<close> is whole already, the third entry \<open>tokens\<close> of the
  token bucket's reply is not.\<close>

definition reply_integer :: "rat \<Rightarrow> int" where
  "reply_integer x = (if x < 0 then \<lceil>x\<rceil> else \<lfloor>x\<rfloor>)"

text \<open>The Lua script of \<open>TokenBucketLimiter.check\<close>; the reply is
  \<open>{allowed, math.floor(remaining), tokens}\<close>. \<open>now - last_update\<close> is an integer; the
  two quotients, the product, the sum and the difference are rounded. The tokens that
  \<open>HMSET\<close> writes are the double that \<open>HMGET\<close> reads back.\<close>

definition token_bucket_script ::
  "string \<Rightarrow> int \<Rightarrow> int \<Rightarrow> int \<Rightarrow> Storage \<Rightarrow> error + ((int \<times> int \<times> int) \<times> Storage)" where
  "token_bucket_script k limit window now st =
     (let rate = fdiv (of_int limit) (of_int window)
      in case redis_HMGET st k of
           Inl e \<Rightarrow> Inl e
         | Inr bucket \<Rightarrow>
             (let (tokens0, last_update) =
                    (case bucket of None \<Rightarrow> (of_int limit, now) | Some (t, u) \<Rightarrow> (t, u));
                  elapsed = fdiv (of_int (now - last_update)) 1000;
                  tokens_to_add = fmul elapsed rate;
                  tokens1 = min (of_int limit) (fadd tokens0 tokens_to_add);
                  (allowed, tokens, remaining) =
                    (if tokens1 \<ge> 1 then (1, fsub tokens1 1, fsub tokens1 1)
                     else (0, tokens1, tokens1))
              in case redis_HMSET st k tokens now of
                   Inl e \<Rightarrow> Inl e
                 | Inr st1 \<Rightarrow>
                     Inr ((allowed, \<lfloor>remaining\<rfloor>, reply_integer tokens),
                          redis_EXPIRE st1 k (window * 2))))"

definition TokenBucketLimiter_check ::
  "int \<Rightarrow> string \<Rightarrow> int \<Rightarrow> int \<Rightarrow> Storage \<Rightarrow> error + (CheckResult \<times> Storage)" where
  "TokenBucketLimiter_check now key limit window st =
     (let redisKey = bucket_redisKey key
      in case token_bucket_script redisKey limit window now st of
           Inl e \<Rightarrow> Inl e
         | Inr ((allowed, remaining, currentTokens), st') \<Rightarrow>
             (let resetAt = now + window * 1000
              in Inr (\<lparr>res_allowed = (allowed = 1), res_limit = limit,
                        res_remaining = remaining, res_resetAt = resetAt,
                        res_retryAfter =
                          (if allowed = 0
                           then Some \<lceil>fdiv (of_int (1 - currentTokens))
                                             (fdiv (of_int limit) (of_int window))\<rceil>
                           else None),
                        res_currentUsage = limit - remaining\<rparr>,
                      st')))"

text \<open>The token bucket in the words of the specification, to compare the script with.
  The state is the pair of \<open>tokens\<close> and \<open>lastUpdate\<close>, or nothing before the first
  use, when \<open>tokens\<close> starts at \<open>limit\<close> and \<open>lastUpdate\<close> at \<open>now\<close>. With
  \<open>elapsed = (now - lastUpdate) / 1000\<close> the tokens become
  \<open>min(limit, tokens + elapsed * limit / window)\<close>; with at least one token the check
  takes one and is allowed, otherwise it is denied; \<open>remaining\<close> is the floor of the
  tokens left. The result is the decision, \<open>remaining\<close> and the state to persist. The
  arithmetic is that of doubles, \<open>rate = limit / window\<close> computed first.\<close>

definition spec_token_bucket ::
  "int \<Rightarrow> int \<Rightarrow> int \<Rightarrow> (rat \<times> int) option \<Rightarrow> bool \<times> int \<times> (rat \<times> int)" where
  "spec_token_bucket limit window now state =
     (let (tokens0, lastUpdate) =
            (case state of None \<Rightarrow> (of_int limit, now) | Some (t, u) \<Rightarrow> (t, u));
          rate = fdiv (of_int limit) (of_int window);
          elapsed = fdiv (of_int (now - lastUpdate)) 1000;
          tokens = min (of_int limit) (fadd tokens0 (fmul elapsed rate))
      in if tokens \<ge> 1 then (True, \<lfloor>fsub tokens 1\<rfloor>, (fsub tokens 1, now))
         else (False, \<lfloor>tokens\<rfloor>, (tokens, now)))"

fun bucket_run ::
  "string \<Rightarrow> int \<Rightarrow> int \<Rightarrow> int list \<Rightarrow> Storage \<Rightarrow> error + (CheckResult list \<times> Storage)" where
  "bucket_run key limit window [] st = Inr ([], st)"
| "bucket_run key limit window (now # ts) st =
     (case TokenBucketLimiter_check now key limit window st of
        Inl e \<Rightarrow> Inl e
      | Inr (r, st1) \<Rightarrow>
          (case bucket_run key limit window ts st1 of
             Inl e \<Rightarrow> Inl e
           | Inr (rs, st2) \<Rightarrow> Inr (r # rs, st2)))"

text \<open>The tokens a store holds for a subject, if it holds a bucket for it.\<close>

definition stored_tokens :: "Storage \<Rightarrow> string \<Rightarrow> rat option" where
  "stored_tokens st key =
     (case st (bucket_redisKey key) of Some (Bucket t u, ttl) \<Rightarrow> Some t | _ \<Rightarrow> None)"

text \<open>What a run returned as \<open>remaining\<close>, check by check, and the tokens it left in
  the store.\<close>

definition remainings :: "error + (CheckResult list \<times> Storage) \<Rightarrow> error + int list" where
  "remainings x = map_sum id (\<lambda>(rs, st). map res_remaining rs) x"

definition tokens_after ::
  "string \<Rightarrow> error + (CheckResult list \<times> Storage) \<Rightarrow> error + rat option" where
  "tokens_after key x = map_sum id (\<lambda>(rs, st). stored_tokens st key) x"

section \<open>Algorithm factory\<close>

text \<open>\<open>AlgorithmFactory.get\<close> keeps one limiter for each algorithm; the limiters hold
  no state of their own. \<open>now\<close> is what \<open>Date.now()\<close> returns inside \<open>check\<close>.\<close>

definition limiter_check ::
  "AlgorithmType \<Rightarrow> int \<Rightarrow> string \<Rightarrow> int \<Rightarrow> int \<Rightarrow> Storage
     \<Rightarrow> error + (CheckResult \<times> Storage)" where
  "limiter_check algorithm now key limit window st =
     (case algorithm of
        token_bucket \<Rightarrow> TokenBucketLimiter_check now key limit window st
      | fixed_window \<Rightarrow> FixedWindowLimiter_check now key limit window st
      | sliding_window \<Rightarrow> SlidingWindowLimiter_check now key limit window st)"

section \<open>Rule cache and rule service\<close>

text \<open>\<open>RuleCache\<close> wraps a JavaScript \<open>Map\<close> from rule id to rule. A \<open>Map\<close> keeps its
  entries in the order of their first insertion and \<open>set\<close> on a key it has replaces the
  value in place: an association list under \<open>AList.update\<close>.\<close>

type_synonym RuleCache = "(string \<times> Rule) list"

definition cache_set :: "RuleCache \<Rightarrow> Rule \<Rightarrow> RuleCache" where
  "cache_set c rule = AList.update (rule_id rule) rule c"

definition cache_get :: "RuleCache \<Rightarrow> string \<Rightarrow> Rule option" where
  "cache_get c ident = map_of c ident"

definition cache_getAll :: "RuleCache \<Rightarrow> Rule list" where
  "cache_getAll c = map snd c"

definition cache_delete :: "RuleCache \<Rightarrow> string \<Rightarrow> bool \<times> RuleCache" where
  "cache_delete c ident = (map_of c ident \<noteq> None, AList.delete ident c)"

text \<open>What every cache built with \<open>cache_set\<close> from the empty cache satisfies: one
  entry for each key, and each rule filed under its own id.\<close>

definition cache_wf :: "RuleCache \<Rightarrow> bool" where
  "cache_wf c = (distinct (map fst c) \<and> (\<forall>(k, r) \<in> set c. rule_id r = k))"

text \<open>\<open>RuleCache.findByKey\<close>: \<open>Array.find\<close> over the values, \<open>Array.some\<close> over the
  rule's keys, \<open>String.includes\<close> for the containment. The endpoint is not used.\<close>

definition findByKey :: "RuleCache \<Rightarrow> string \<Rightarrow> string option \<Rightarrow> Rule option" where
  "findByKey c key endpoint =
     List.find
       (\<lambda>rule. if \<not> rule_enabled rule then False
               else list_ex (\<lambda>keyConfig. if kc_value keyConfig = ''*'' then True
                                          else sublist (kc_value keyConfig) key)
                            (rule_keys rule))
       (cache_getAll c)"

text \<open>The matching policy in the words of the specification: a rule matches a key when
  it is enabled and one of its entries has the value \<open>*\<close> or a value that the key
  contains. \<open>findByKey\<close> above is compared with it.\<close>

definition rule_matches :: "string \<Rightarrow> Rule \<Rightarrow> bool" where
  "rule_matches key rule =
     (rule_enabled rule
      \<and> (\<exists>keyConfig \<in> set (rule_keys rule).
            kc_value keyConfig = ''*'' \<or> sublist (kc_value keyConfig) key))"

text \<open>A rule with a single key entry, for the worked examples.\<close>

definition rule_with :: "string \<Rightarrow> bool \<Rightarrow> string \<Rightarrow> Rule" where
  "rule_with ident enabled v =
     \<lparr>rule_id = ident, rule_name = ''example'', rule_algorithm = fixed_window,
      rule_limit = 10, rule_window = 60,
      rule_keys = [\<lparr>kc_type = KT_user, kc_value = v\<rparr>],
      rule_webhookUrl = None, rule_thresholds = [80, 90, 100], rule_enabled = enabled,
      rule_createdAt = None, rule_updatedAt = None\<rparr>"

text \<open>The state of the service: the cache of \<open>RuleService\<close> and the store that
  \<open>RuleService\<close> and \<open>RateLimiterService\<close> share.\<close>

record ServiceState =
  svc_cache :: RuleCache
  svc_storage :: Storage

definition rule_redisKey :: "string \<Rightarrow> string" where
  "rule_redisKey ident = ''rule:'' @ ident"

text \<open>\<open>RuleSchema.parse\<close>. The formats \<open>uuid\<close> and \<open>url\<close> are checked by the validation
  library, which is not part of the repository: they are the parameters \<open>uuid_ok\<close> and
  \<open>url_ok\<close>. The lengths, signs and ranges are those the schema writes.\<close>

definition RuleSchema_parse ::
  "(string \<Rightarrow> bool) \<Rightarrow> (string \<Rightarrow> bool) \<Rightarrow> Rule \<Rightarrow> error + Rule" where
  "RuleSchema_parse uuid_ok url_ok rule =
     (if uuid_ok (rule_id rule)
         \<and> 1 \<le> length (rule_name rule) \<and> length (rule_name rule) \<le> 255
         \<and> 0 < rule_limit rule
         \<and> 0 < rule_window rule
         \<and> 1 \<le> length (rule_keys rule)
         \<and> (case rule_webhookUrl rule of None \<Rightarrow> True | Some u \<Rightarrow> url_ok u)
         \<and> list_all (\<lambda>t. 0 \<le> t \<and> t \<le> 100) (rule_thresholds rule)
      then Inr rule else Inl ValidationError)"

text \<open>\<open>CreateRuleSchema\<close>, which the route applies to a request before \<open>createRule\<close>.\<close>

definition CreateRuleSchema_ok ::
  "(string \<Rightarrow> bool) \<Rightarrow> (string \<Rightarrow> bool) \<Rightarrow> CreateRuleRequest \<Rightarrow> bool" where
  "CreateRuleSchema_ok uuid_ok url_ok request =
     ((case cr_id request of None \<Rightarrow> True | Some i \<Rightarrow> uuid_ok i)
      \<and> 1 \<le> length (cr_name request) \<and> length (cr_name request) \<le> 255
      \<and> 0 < cr_limit request
      \<and> 0 < cr_window request
      \<and> 1 \<le> length (cr_keys request)
      \<and> (case cr_webhookUrl request of None \<Rightarrow> True | Some u \<Rightarrow> url_ok u)
      \<and> (case cr_thresholds request of None \<Rightarrow> True
          | Some ts \<Rightarrow> list_all (\<lambda>t. 0 \<le> t \<and> t \<le> 100) ts))"

text \<open>\<open>RuleService.createRule\<close>. \<open>uuid\<close> is what \<open>uuidv4()\<close> returns, \<open>t1\<close> and \<open>t2\<close>
  what the two \<open>new Date()\<close> return. \<open>||\<close> takes the generated id also for an empty
  string, \<open>??\<close> takes the default only for an undefined field.\<close>

definition createRule ::
  "(string \<Rightarrow> bool) \<Rightarrow> (string \<Rightarrow> bool) \<Rightarrow> string \<Rightarrow> int \<Rightarrow> int \<Rightarrow> CreateRuleRequest
     \<Rightarrow> ServiceState \<Rightarrow> error + (Rule \<times> ServiceState)" where
  "createRule uuid_ok url_ok uuid t1 t2 request s =
     (let rule = \<lparr>rule_id = (case cr_id request of
                                Some i \<Rightarrow> if i \<noteq> [] then i else uuid
                              | None \<Rightarrow> uuid),
                   rule_name = cr_name request,
                   rule_algorithm = cr_algorithm request,
                   rule_limit = cr_limit request,
                   rule_window = cr_window request,
                   rule_keys = cr_keys request,
                   rule_webhookUrl = cr_webhookUrl request,
                   rule_thresholds = (case cr_thresholds request of
                                        Some ts \<Rightarrow> ts | None \<Rightarrow> [80, 90, 100]),
                   rule_enabled = (case cr_enabled request of Some b \<Rightarrow> b | None \<Rightarrow> True),
                   rule_createdAt = Some t1,
                   rule_updatedAt = Some t2\<rparr>
      in case RuleSchema_parse uuid_ok url_ok rule of
           Inl e \<Rightarrow> Inl e
         | Inr validated \<Rightarrow>
             Inr (validated,
                  \<lparr>svc_cache = cache_set (svc_cache s) validated,
                   svc_storage = storage_set (svc_storage s)
                                   (rule_redisKey (rule_id validated)) (RuleJson validated)\<rparr>))"

text \<open>\<open>RuleService.getRule\<close>: the cache first, then the store, whose rule is put into
  the cache. Keys that start with \<open>rule:\<close> are written by \<open>createRule\<close> and
  \<open>updateRule\<close> only; a value there that is not the JSON of a rule is outside the model
  and made an error.\<close>

definition getRule :: "string \<Rightarrow> ServiceState \<Rightarrow> error + (Rule option \<times> ServiceState)" where
  "getRule ident s =
     (case cache_get (svc_cache s) ident of
        Some rule \<Rightarrow> Inr (Some rule, s)
      | None \<Rightarrow>
          (case redis_GET (svc_storage s) (rule_redisKey ident) of
             Inl e \<Rightarrow> Inl e
           | Inr None \<Rightarrow> Inr (None, s)
           | Inr (Some (RuleJson rule)) \<Rightarrow>
               Inr (Some rule, s\<lparr>svc_cache := cache_set (svc_cache s) rule\<rparr>)
           | Inr (Some v) \<Rightarrow> Inl ScriptError))"

definition getAllRules :: "ServiceState \<Rightarrow> Rule list" where
  "getAllRules s = cache_getAll (svc_cache s)"

definition findMatchingRule :: "string \<Rightarrow> string option \<Rightarrow> ServiceState \<Rightarrow> Rule option" where
  "findMatchingRule key endpoint s = findByKey (svc_cache s) key endpoint"

section \<open>Orchestrator\<close>

text \<open>\<open>CheckRequestSchema\<close>, which the route applies to a request before \<open>check\<close>.\<close>

definition CheckRequestSchema_ok :: "(string \<Rightarrow> bool) \<Rightarrow> CheckRequest \<Rightarrow> bool" where
  "CheckRequestSchema_ok uuid_ok request =
     (1 \<le> length (req_key request)
      \<and> (case req_ruleId request of None \<Rightarrow> True | Some i \<Rightarrow> uuid_ok i)
      \<and> (case req_limit request of None \<Rightarrow> True | Some l \<Rightarrow> 0 < l)
      \<and> (case req_window request of None \<Rightarrow> True | Some w \<Rightarrow> 0 < w))"

text \<open>JavaScript's truth of an optional string and of an optional number: undefined,
  the empty string and 0 are false.\<close>

definition truthy_string :: "string option \<Rightarrow> bool" where
  "truthy_string x = (case x of None \<Rightarrow> False | Some s \<Rightarrow> s \<noteq> [])"

definition truthy_number :: "int option \<Rightarrow> bool" where
  "truthy_number x = (case x of None \<Rightarrow> False | Some n \<Rightarrow> n \<noteq> 0)"

text \<open>The first half of \<open>RateLimiterService.check\<close>: the \<open>if\<close> chain that settles
  algorithm, limit and window. The name of an algorithm is never the empty string.\<close>

definition resolve ::
  "CheckRequest \<Rightarrow> ServiceState \<Rightarrow> error + ((AlgorithmType \<times> int \<times> int) \<times> ServiceState)" where
  "resolve request s =
     (if truthy_string (req_ruleId request) then
        (case getRule (the (req_ruleId request)) s of
           Inl e \<Rightarrow> Inl e
         | Inr (None, s1) \<Rightarrow> Inl (RuleNotFound (the (req_ruleId request)))
         | Inr (Some rule, s1) \<Rightarrow>
             if \<not> rule_enabled rule then Inl (RuleDisabled (the (req_ruleId request)))
             else Inr ((rule_algorithm rule, rule_limit rule, rule_window rule), s1))
      else if req_algorithm request \<noteq> None \<and> truthy_number (req_limit request)
              \<and> truthy_number (req_window request) then
        Inr ((the (req_algorithm request), the (req_limit request), the (req_window request)), s)
      else
        (case findMatchingRule (req_key request) (req_endpoint request) s of
           None \<Rightarrow> Inl NoMatchingRule
         | Some matchingRule \<Rightarrow>
             Inr ((rule_algorithm matchingRule, rule_limit matchingRule,
                   rule_window matchingRule), s)))"

text \<open>\<open>fullKey\<close>: the endpoint is appended when it is true in JavaScript's sense.\<close>

definition fullKey_of :: "CheckRequest \<Rightarrow> string" where
  "fullKey_of request =
     (if truthy_string (req_endpoint request)
      then req_key request @ '':'' @ the (req_endpoint request)
      else req_key request)"

text \<open>The second half of \<open>RateLimiterService.check\<close>: the limiter of the algorithm
  is run on the store; the cache of rules is not part of what it reads or writes.\<close>

definition perform_check ::
  "AlgorithmType \<Rightarrow> int \<Rightarrow> string \<Rightarrow> int \<Rightarrow> int \<Rightarrow> ServiceState
     \<Rightarrow> error + (CheckResult \<times> ServiceState)" where
  "perform_check algorithm now fullKey limit window s =
     (case limiter_check algorithm now fullKey limit window (svc_storage s) of
        Inl e \<Rightarrow> Inl e
      | Inr (r, st') \<Rightarrow> Inr (r, s\<lparr>svc_storage := st'\<rparr>))"

text \<open>\<open>RateLimiterService.check\<close>.\<close>

definition RateLimiterService_check ::
  "int \<Rightarrow> CheckRequest \<Rightarrow> ServiceState \<Rightarrow> error + (CheckResult \<times> ServiceState)" where
  "RateLimiterService_check now request s =
     (case resolve request s of
        Inl e \<Rightarrow> Inl e
      | Inr ((algorithm, limit, window), s1) \<Rightarrow>
          perform_check algorithm now (fullKey_of request) limit window s1)"

text \<open>A request that carries its parameters inline, for the worked examples.\<close>

definition inline_request ::
  "string \<Rightarrow> string option \<Rightarrow> AlgorithmType \<Rightarrow> int \<Rightarrow> int \<Rightarrow> CheckRequest" where
  "inline_request key endpoint algorithm limit window =
     \<lparr>req_key = key, req_endpoint = endpoint, req_ruleId = None,
      req_algorithm = Some algorithm, req_limit = Some limit, req_window = Some window\<rparr>"

section \<open>Notifier\<close>

text \<open>\<open>sort((a, b) => b - a)\<close>: a stable sort into descending order.\<close>

definition sort_desc :: "rat list \<Rightarrow> rat list" where
  "sort_desc xs = sort_key (\<lambda>t. - t) xs"

text \<open>\<open>WebhookNotifier.shouldNotify\<close>, for a limit that is not 0. The arguments are
  doubles; the quotient and the product are rounded.\<close>

definition shouldNotify :: "rat \<Rightarrow> rat \<Rightarrow> rat list \<Rightarrow> rat option" where
  "shouldNotify currentUsage limit thresholds =
     (let percentage = fmul (fdiv currentUsage limit) 100;
          crossedThresholds = sort_desc (filter (\<lambda>t. percentage \<ge> t) thresholds)
      in if length crossedThresholds > 0 then Some (crossedThresholds ! 0) else None)"

section \<open>Rendering of numbers is injective\<close>

lemma undigits_snoc: "undigits (s @ [c]) = undigits s * 10 + (of_char c - 48)"
  by (simp add: undigits_def)

lemma of_char_digit: "d < 10 \<Longrightarrow> (of_char (char_of (48 + d :: nat)) :: nat) = 48 + d"
  by simp

lemma undigits_digits: "undigits (digits n) = n"
proof (induction n rule: digits.induct)
  case (1 n)
  show ?case
  proof (cases "n < 10")
    case True
    then show ?thesis
      by (subst digits.simps) (simp add: undigits_def)
  next
    case False
    have "n mod 10 < 10" by simp
    then have c: "(of_char (char_of (48 + n mod 10)) :: nat) = 48 + n mod 10"
      by (rule of_char_digit)
    from False 1 have "undigits (digits (n div 10)) = n div 10" by simp
    with False c show ?thesis
      by (subst digits.simps) (simp add: undigits_snoc)
  qed
qed

lemma digits_inj: "digits a = digits b \<Longrightarrow> a = b"
  by (metis undigits_digits)

lemma digits_chars: "c \<in> set (digits n) \<Longrightarrow> (of_char c :: nat) \<ge> 48 \<and> (of_char c :: nat) \<le> 57"
proof (induction n rule: digits.induct)
  case (1 n)
  show ?case
  proof (cases "n < 10")
    case True
    with 1(2) show ?thesis
      by (subst (asm) digits.simps) auto
  next
    case False
    have m: "n mod 10 < 10" by simp
    have c: "(of_char (char_of (48 + n mod 10)) :: nat) = 48 + n mod 10"
      using m by (rule of_char_digit)
    from 1(2) False have "c \<in> set (digits (n div 10)) \<or> c = char_of (48 + n mod 10)"
      by (subst (asm) digits.simps) auto
    then show ?thesis
    proof
      assume "c \<in> set (digits (n div 10))"
      with 1(1) False show ?thesis by simp
    next
      assume "c = char_of (48 + n mod 10)"
      with c m show ?thesis by simp
    qed
  qed
qed

lemma digits_nonempty: "digits n \<noteq> []"
  by (subst digits.simps) simp

lemma digits_no_minus: "digits n \<noteq> CHR ''-'' # s"
proof
  assume "digits n = CHR ''-'' # s"
  then have "CHR ''-'' \<in> set (digits n)" by simp
  then have "(of_char CHR ''-'' :: nat) \<ge> 48" using digits_chars by blast
  then show False by simp
qed

lemma show_int_inj: "show_int a = show_int b \<Longrightarrow> a = b"
  unfolding show_int_def
  by (auto split: if_splits dest: digits_inj simp: digits_no_minus digits_no_minus[symmetric])

lemma fixed_redisKey_inj: "fixed_redisKey key a = fixed_redisKey key b \<Longrightarrow> a = b"
  by (simp add: fixed_redisKey_def show_int_inj)

section \<open>Fixed window: the first L checks of a window pass\<close>

lemma fixed_step_absent:
  assumes "0 < limit" "0 < window" "st (fixed_redisKey key (windowStart_of now window)) = None"
  shows "\<exists>r. FixedWindowLimiter_check now key limit window st =
           Inr (r, st(fixed_redisKey key (windowStart_of now window) \<mapsto> (Counter 1, Some window)))
         \<and> res_allowed r \<and> res_retryAfter r = None"
  using assms
  by (simp add: FixedWindowLimiter_check_def fixed_window_script_def redis_GET_def
      redis_INCR_def redis_EXPIRE_def Let_def)

lemma fixed_step_below:
  assumes "0 < window" "c < limit"
    "st (fixed_redisKey key (windowStart_of now window)) = Some (Counter c, ttl)"
  shows "\<exists>r. FixedWindowLimiter_check now key limit window st =
           Inr (r, st(fixed_redisKey key (windowStart_of now window) \<mapsto> (Counter (c + 1), Some window)))
         \<and> res_allowed r \<and> res_retryAfter r = None"
  using assms
  by (simp add: FixedWindowLimiter_check_def fixed_window_script_def redis_GET_def tonumber_def
      redis_INCR_def redis_EXPIRE_def Let_def)

lemma windowStart_split:
  "now = windowStart_of now window + now mod (window * 1000)"
  unfolding windowStart_of_def by (simp only: div_mult_mod_eq)


lemma windowStart_gt: "0 < window \<Longrightarrow> now < windowStart_of now window + window * 1000"
proof -
  assume "0 < window"
  then have "now mod (window * 1000) < window * 1000" by simp
  with windowStart_split[of now window] show ?thesis by linarith
qed

lemma retry_pos: "(0::int) < d \<Longrightarrow> 0 < \<lceil>(of_int d :: rat) / 1000\<rceil>"
  by simp

lemma fixed_step_full:
  assumes "0 < window" "limit \<le> c"
    "st (fixed_redisKey key (windowStart_of now window)) = Some (Counter c, ttl)"
  shows "\<exists>r. FixedWindowLimiter_check now key limit window st = Inr (r, st)
         \<and> \<not> res_allowed r \<and> (\<exists>n. res_retryAfter r = Some n \<and> 0 < n)"
  using assms windowStart_gt[of window now]
  by (simp add: FixedWindowLimiter_check_def fixed_window_script_def redis_GET_def tonumber_def
      Let_def)

lemma fixed_script_denied:
  assumes "fixed_window_script k limit window st = Inr ((a, c), st')" "a \<noteq> 1"
  shows "st' = st"
proof (cases "redis_GET st k")
  case (Inl e)
  with assms show ?thesis by (simp add: fixed_window_script_def)
next
  case (Inr got)
  show ?thesis
  proof (cases "case got of None \<Rightarrow> Some 0 | Some v \<Rightarrow> tonumber v")
    case None
    with Inr assms show ?thesis by (simp add: fixed_window_script_def)
  next
    case (Some current)
    show ?thesis
    proof (cases "current < limit")
      case True
      with Inr Some assms show ?thesis
        by (cases "redis_INCR st k") (auto simp: fixed_window_script_def)
    next
      case False
      with Inr Some assms show ?thesis by (simp add: fixed_window_script_def)
    qed
  qed
qed

lemma fixed_denied_unchanged:
  assumes "FixedWindowLimiter_check now key limit window st = Inr (r, st')" "\<not> res_allowed r"
  shows "st' = st"
proof (cases "fixed_window_script (fixed_redisKey key (windowStart_of now window)) limit window st")
  case (Inl e)
  with assms show ?thesis by (simp add: FixedWindowLimiter_check_def Let_def)
next
  case (Inr p)
  obtain a c st1 where p: "p = ((a, c), st1)" by (metis surj_pair)
  from assms Inr p have "st' = st1" "a \<noteq> 1"
    by (auto simp: FixedWindowLimiter_check_def Let_def)
  with Inr p fixed_script_denied show ?thesis by blast
qed

lemma fixed_run_counter:
  assumes "0 < window" "\<forall>now \<in> set ts. windowStart_of now window = ws"
    "st (fixed_redisKey key ws) = Some (Counter c, ttl)"
  shows "\<exists>rs st'. fixed_run key limit window ts st = Inr (rs, st')
      \<and> length rs = length ts
      \<and> (\<forall>i < length ts. res_allowed (rs ! i) = (c + int i < limit))
      \<and> (\<forall>i < length ts. \<not> res_allowed (rs ! i) \<longrightarrow>
            (\<exists>n. res_retryAfter (rs ! i) = Some n \<and> 0 < n))
      \<and> (\<forall>k'. k' \<noteq> fixed_redisKey key ws \<longrightarrow> st' k' = st k')
      \<and> st' (fixed_redisKey key ws) =
            Some (Counter (if limit \<le> c then c else min (c + int (length ts)) limit),
                  if c < limit \<and> ts \<noteq> [] then Some window else ttl)"
  using assms
proof (induction ts arbitrary: st c ttl)
  case Nil
  then show ?case by auto
next
  case (Cons now ts)
  let ?k = "fixed_redisKey key ws"
  from Cons.prems have ws: "windowStart_of now window = ws"
    and rest: "\<forall>t \<in> set ts. windowStart_of t window = ws" by auto
  show ?case
  proof (cases "c < limit")
    case True
    from fixed_step_below[OF Cons.prems(1) True, of st key now ttl] Cons.prems(3) ws
    obtain r where r: "FixedWindowLimiter_check now key limit window st =
        Inr (r, st(?k \<mapsto> (Counter (c + 1), Some window)))" "res_allowed r" "res_retryAfter r = None"
      by auto
    let ?st1 = "st(?k \<mapsto> (Counter (c + 1), Some window))"
    have "?st1 ?k = Some (Counter (c + 1), Some window)" by simp
    from Cons.IH[of ?st1 "c + 1" "Some window", OF Cons.prems(1) rest this]
    obtain rs st' where ih: "fixed_run key limit window ts ?st1 = Inr (rs, st')"
      "length rs = length ts"
      "\<forall>i < length ts. res_allowed (rs ! i) = (c + 1 + int i < limit)"
      "\<forall>i < length ts. \<not> res_allowed (rs ! i) \<longrightarrow> (\<exists>n. res_retryAfter (rs ! i) = Some n \<and> 0 < n)"
      "\<forall>k'. k' \<noteq> ?k \<longrightarrow> st' k' = ?st1 k'"
      "st' ?k = Some (Counter (if limit \<le> c + 1 then c + 1 else min (c + 1 + int (length ts)) limit),
                     if c + 1 < limit \<and> ts \<noteq> [] then Some window else Some window)"
      by blast
    have run: "fixed_run key limit window (now # ts) st = Inr (r # rs, st')"
      using r(1) ih(1) by simp
    have a: "\<forall>i < length (now # ts). res_allowed ((r # rs) ! i) = (c + int i < limit)"
    proof (intro allI impI)
      fix i assume "i < length (now # ts)"
      then show "res_allowed ((r # rs) ! i) = (c + int i < limit)"
        using r(2) True ih(3) by (cases i) auto
    qed
    have b: "\<forall>i < length (now # ts). \<not> res_allowed ((r # rs) ! i) \<longrightarrow>
            (\<exists>n. res_retryAfter ((r # rs) ! i) = Some n \<and> 0 < n)"
    proof (intro allI impI)
      fix i assume "i < length (now # ts)" "\<not> res_allowed ((r # rs) ! i)"
      then show "\<exists>n. res_retryAfter ((r # rs) ! i) = Some n \<and> 0 < n"
        using r(2) ih(4) by (cases i) auto
    qed
    have c: "\<forall>k'. k' \<noteq> ?k \<longrightarrow> st' k' = st k'" using ih(5) by simp
    have d: "st' ?k = Some (Counter (if limit \<le> c then c else min (c + int (length (now # ts))) limit),
                           if c < limit \<and> now # ts \<noteq> [] then Some window else ttl)"
    proof -
      have e: "(if limit \<le> c + 1 then c + 1 else min (c + 1 + n) limit) = min (c + (1 + n)) limit"
        if "0 \<le> n" for n :: int
        using True that by (simp add: min_def)
      have "int (length (now # ts)) = 1 + int (length ts)" by simp
      with e[of "int (length ts)"] ih(6) True show ?thesis by simp
    qed
    from run ih(2) a b c d show ?thesis by auto
  next
    case False
    then have full: "limit \<le> c" by simp
    from fixed_step_full[OF Cons.prems(1) full, of st key now ttl] Cons.prems(3) ws
    obtain r where r: "FixedWindowLimiter_check now key limit window st = Inr (r, st)"
      "\<not> res_allowed r" "\<exists>n. res_retryAfter r = Some n \<and> 0 < n"
      by auto
    from Cons.IH[of st c ttl, OF Cons.prems(1) rest Cons.prems(3)]
    obtain rs st' where ih: "fixed_run key limit window ts st = Inr (rs, st')"
      "length rs = length ts"
      "\<forall>i < length ts. res_allowed (rs ! i) = (c + int i < limit)"
      "\<forall>i < length ts. \<not> res_allowed (rs ! i) \<longrightarrow> (\<exists>n. res_retryAfter (rs ! i) = Some n \<and> 0 < n)"
      "\<forall>k'. k' \<noteq> ?k \<longrightarrow> st' k' = st k'"
      "st' ?k = Some (Counter (if limit \<le> c then c else min (c + int (length ts)) limit),
                     if c < limit \<and> ts \<noteq> [] then Some window else ttl)"
      by blast
    have run: "fixed_run key limit window (now # ts) st = Inr (r # rs, st')"
      using r(1) ih(1) by simp
    have a: "\<forall>i < length (now # ts). res_allowed ((r # rs) ! i) = (c + int i < limit)"
    proof (intro allI impI)
      fix i assume "i < length (now # ts)"
      then show "res_allowed ((r # rs) ! i) = (c + int i < limit)"
        using r(2) full ih(3) by (cases i) auto
    qed
    have b: "\<forall>i < length (now # ts). \<not> res_allowed ((r # rs) ! i) \<longrightarrow>
            (\<exists>n. res_retryAfter ((r # rs) ! i) = Some n \<and> 0 < n)"
    proof (intro allI impI)
      fix i assume "i < length (now # ts)" "\<not> res_allowed ((r # rs) ! i)"
      then show "\<exists>n. res_retryAfter ((r # rs) ! i) = Some n \<and> 0 < n"
        using r(3) ih(4) by (cases i) auto
    qed
    have d: "st' ?k = Some (Counter (if limit \<le> c then c else min (c + int (length (now # ts))) limit),
                           if c < limit \<and> now # ts \<noteq> [] then Some window else ttl)"
      using ih(6) full by simp
    from run ih(2) a b ih(5) d show ?thesis by auto
  qed
qed

lemma fixed_next_window_key:
  "0 < window \<Longrightarrow> fixed_redisKey key (ws + window * 1000) \<noteq> fixed_redisKey key ws"
  using fixed_redisKey_inj[of key "ws + window * 1000" ws] by auto

text \<open>
  Claim C1. Take a positive limit \<open>L\<close> and window \<open>W\<close>, a subject key, and a sequence of
  checks whose times all have the same window start \<open>ws\<close>, run on a store that holds no
  counter of the subject for that window nor for the next. Then every check returns;
  check number \<open>i\<close> (from 0) is allowed exactly when \<open>i < L\<close>, so the first \<open>L\<close> pass and
  the next is denied; every denied check carries a positive \<open>retryAfter\<close>; the stored
  count ends at \<open>min n L\<close> with a time to live of \<open>W\<close> seconds; a denied check leaves the store as it was; and a check whose
  time lies in the next window (window start \<open>ws + W * 1000\<close>, the \<open>resetAt\<close> of this
  window) is allowed again.
\<close>

theorem fixed_window_first_limit_allowed:
  assumes "0 < limit" and "0 < window"
    and "\<forall>now \<in> set ts. windowStart_of now window = ws"
    and "st (fixed_redisKey key ws) = None"
    and "st (fixed_redisKey key (ws + window * 1000)) = None"
  shows "\<exists>rs st'. fixed_run key limit window ts st = Inr (rs, st')
      \<and> length rs = length ts
      \<and> (\<forall>i < length ts. res_allowed (rs ! i) = (int i < limit))
      \<and> (\<forall>i < length ts. \<not> res_allowed (rs ! i) \<longrightarrow>
            (\<exists>n. res_retryAfter (rs ! i) = Some n \<and> 0 < n))
      \<and> (ts \<noteq> [] \<longrightarrow> st' (fixed_redisKey key ws) =
            Some (Counter (min (int (length ts)) limit), Some window))
      \<and> (\<forall>now r s0 s1. FixedWindowLimiter_check now key limit window s0 = Inr (r, s1)
            \<and> \<not> res_allowed r \<longrightarrow> s1 = s0)
      \<and> (\<forall>now'. windowStart_of now' window = ws + window * 1000 \<longrightarrow>
            (\<exists>r st''. FixedWindowLimiter_check now' key limit window st' = Inr (r, st'')
               \<and> res_allowed r))"
proof -
  let ?k = "fixed_redisKey key ws"
  let ?k2 = "fixed_redisKey key (ws + window * 1000)"
  have ne: "?k2 \<noteq> ?k" using assms(2) by (rule fixed_next_window_key)
  have den: "\<forall>now r s0 s1. FixedWindowLimiter_check now key limit window s0 = Inr (r, s1)
            \<and> \<not> res_allowed r \<longrightarrow> s1 = s0"
    using fixed_denied_unchanged by blast
  have nxt: "\<forall>now'. windowStart_of now' window = ws + window * 1000 \<longrightarrow>
            (\<exists>r st''. FixedWindowLimiter_check now' key limit window st' = Inr (r, st'')
               \<and> res_allowed r)" if "st' ?k2 = None" for st'
  proof (intro allI impI)
    fix now' assume w: "windowStart_of now' window = ws + window * 1000"
    from fixed_step_absent[OF assms(1,2), of st' key now'] that w
    show "\<exists>r st''. FixedWindowLimiter_check now' key limit window st' = Inr (r, st'') \<and> res_allowed r"
      by auto
  qed
  show ?thesis
  proof (cases ts)
    case Nil
    with den nxt[of st, OF assms(5)] show ?thesis by simp
  next
    case (Cons now ts')
    with assms(3) have ws: "windowStart_of now window = ws"
      and rest: "\<forall>t \<in> set ts'. windowStart_of t window = ws" by auto
    let ?st1 = "st(?k \<mapsto> (Counter 1, Some window))"
    from fixed_step_absent[OF assms(1,2), of st key now] assms(4) ws
    obtain r where r: "FixedWindowLimiter_check now key limit window st = Inr (r, ?st1)"
      "res_allowed r" by auto
    have "?st1 ?k = Some (Counter 1, Some window)" by simp
    from fixed_run_counter[of window ts' ws ?st1 key 1 "Some window" limit, OF assms(2) rest this]
    obtain rs st' where ih: "fixed_run key limit window ts' ?st1 = Inr (rs, st')"
      "length rs = length ts'"
      "\<forall>i < length ts'. res_allowed (rs ! i) = (1 + int i < limit)"
      "\<forall>i < length ts'. \<not> res_allowed (rs ! i) \<longrightarrow> (\<exists>n. res_retryAfter (rs ! i) = Some n \<and> 0 < n)"
      "\<forall>k'. k' \<noteq> ?k \<longrightarrow> st' k' = ?st1 k'"
      "st' ?k = Some (Counter (if limit \<le> 1 then 1 else min (1 + int (length ts')) limit),
                     if 1 < limit \<and> ts' \<noteq> [] then Some window else Some window)"
      by blast
    have run: "fixed_run key limit window ts st = Inr (r # rs, st')"
      using r(1) ih(1) Cons by simp
    have len: "length (r # rs) = length ts" using ih(2) Cons by simp
    have a: "\<forall>i < length ts. res_allowed ((r # rs) ! i) = (int i < limit)"
    proof (intro allI impI)
      fix i assume "i < length ts"
      then show "res_allowed ((r # rs) ! i) = (int i < limit)"
        using r(2) assms(1) ih(3) Cons by (cases i) auto
    qed
    have b: "\<forall>i < length ts. \<not> res_allowed ((r # rs) ! i) \<longrightarrow>
            (\<exists>n. res_retryAfter ((r # rs) ! i) = Some n \<and> 0 < n)"
    proof (intro allI impI)
      fix i assume "i < length ts" "\<not> res_allowed ((r # rs) ! i)"
      then show "\<exists>n. res_retryAfter ((r # rs) ! i) = Some n \<and> 0 < n"
        using r(2) ih(4) Cons by (cases i) auto
    qed
    have e: "(if limit \<le> 1 then 1 else min (1 + n) limit) = min (1 + n) limit"
      if "0 \<le> n" for n :: int
      using assms(1) that by (simp add: min_def)
    have "int (length ts) = 1 + int (length ts')" using Cons by simp
    with e[of "int (length ts')"]
    have "(if limit \<le> 1 then 1 else min (1 + int (length ts')) limit) = min (int (length ts)) limit"
      by simp
    with ih(6) have d: "ts \<noteq> [] \<longrightarrow> st' ?k = Some (Counter (min (int (length ts)) limit), Some window)"
      by simp
    have "st' ?k2 = None" using ih(5) ne assms(5) by simp
    from nxt[of st', OF this] run len a b d den show ?thesis by blast
  qed
qed

theorem fixed_window_first_limit_allowed_witness:
  "(0::int) < 2 \<and> (0::int) < 1
   \<and> windowStart_of 1000 1 = 1000 \<and> windowStart_of 1500 1 = 1000
   \<and> windowStart_of 1999 1 = 1000
   \<and> Map.empty (fixed_redisKey ''u'' 1000) = (None :: (redis_value \<times> int option) option)
   \<and> (\<exists>rs st'. fixed_run ''u'' 2 1 [1000, 1500, 1999] Map.empty = Inr (rs, st')
        \<and> map res_allowed rs = [True, True, False]
        \<and> (\<exists>n. res_retryAfter (rs ! 2) = Some n \<and> 0 < n)
        \<and> (\<exists>r st''. FixedWindowLimiter_check 2000 ''u'' 2 1 st' = Inr (r, st'') \<and> res_allowed r))"
proof -
  have h: "\<forall>now \<in> set [1000, 1500, 1999]. windowStart_of now 1 = (1000::int)"
    by (simp add: windowStart_of_def)
  have w: "windowStart_of 2000 1 = 1000 + 1 * 1000" by (simp add: windowStart_of_def)
  from fixed_window_first_limit_allowed[of 2 1 "[1000, 1500, 1999]" 1000 Map.empty "''u''"] h
  obtain rs st' where c: "fixed_run ''u'' 2 1 [1000, 1500, 1999] Map.empty = Inr (rs, st')"
    "length rs = 3"
    "\<forall>i < 3. res_allowed (rs ! i) = (int i < 2)"
    "\<forall>i < 3. \<not> res_allowed (rs ! i) \<longrightarrow> (\<exists>n. res_retryAfter (rs ! i) = Some n \<and> 0 < n)"
    "\<forall>now'. windowStart_of now' 1 = 1000 + 1 * 1000 \<longrightarrow>
            (\<exists>r st''. FixedWindowLimiter_check now' ''u'' 2 1 st' = Inr (r, st'') \<and> res_allowed r)"
    by auto
  from c(2) obtain a b d where rs: "rs = [a, b, d]"
    by (auto simp: length_Suc_conv numeral_3_eq_3)
  from c(3) rs have "res_allowed a" "res_allowed b" "\<not> res_allowed d"
    by (auto simp: numeral_3_eq_3 less_Suc_eq)
  moreover from c(4)[rule_format, of 2] rs calculation have "\<exists>n. res_retryAfter (rs ! 2) = Some n \<and> 0 < n" by simp
  moreover from c(5) w have "\<exists>r st''. FixedWindowLimiter_check 2000 ''u'' 2 1 st' = Inr (r, st'') \<and> res_allowed r"
    by blast
  ultimately show ?thesis using h c(1) rs by auto
qed

section \<open>Double arithmetic: properties of rounding\<close>










lemma round_double_small_ints:
  "round_double 1 = 1" "round_double 2 = 2" "round_double 3 = 3" "round_double 4 = 4"
  "round_double 5 = 5" "round_double 6 = 6" "round_double 7 = 7" "round_double 8 = 8"
  "round_double 9 = 9" "round_double 10 = 10" "round_double (- 1) = - 1"
  by code_simp+

lemma round_double_zero: "round_double 0 = 0"
  by (simp add: round_double_def)

section \<open>Notifier: the largest threshold reached\<close>





lemma shouldNotify_rounded_percentage:
  "fmul (fdiv 29 100) 100 < 29" "shouldNotify 29 100 [29] = None"
  "shouldNotify 57 100 [50, 57] = Some 50"
  by code_simp+

section \<open>Rule matching\<close>

lemma findByKey_pred:
  "(if \<not> rule_enabled rule then False
    else list_ex (\<lambda>keyConfig. if kc_value keyConfig = ''*'' then True
                               else sublist (kc_value keyConfig) key) (rule_keys rule))
   = rule_matches key rule"
  by (auto simp: rule_matches_def list_ex_iff)

lemma findMatchingRule_find:
  "findMatchingRule key endpoint s = List.find (rule_matches key) (getAllRules s)"
  by (simp add: findMatchingRule_def findByKey_def getAllRules_def findByKey_pred)

lemma sublist_42_a: "sublist ''42'' ''user:42''"
  by (simp add: sublist_Cons_right)

lemma sublist_42_b: "sublist ''42'' ''user:4200''"
  by (simp add: sublist_Cons_right)

text \<open>
  Claim C6. For every key and every cache of rules, \<open>findMatchingRule\<close> returns nothing
  exactly when no cached rule matches in the sense of \<open>rule_matches\<close> (enabled, with an
  entry whose value is \<open>*\<close> or is contained in the key), and returns \<open>r\<close> exactly when
  \<open>r\<close> is the first cached rule that matches; so a rule it returns is enabled, and the
  endpoint does not change the result. An enabled rule with an entry \<open>*\<close> is found for
  every key, and an enabled rule whose entry is \<open>42\<close> is found for the key \<open>user:42\<close> and
  for the key \<open>user:4200\<close>.
\<close>

theorem findMatchingRule_first_enabled_match:
  "(findMatchingRule key endpoint s = None
      \<longleftrightarrow> (\<forall>r \<in> set (getAllRules s). \<not> rule_matches key r))
   \<and> (\<forall>r. findMatchingRule key endpoint s = Some r
      \<longleftrightarrow> (\<exists>i < length (getAllRules s). getAllRules s ! i = r \<and> rule_matches key r
             \<and> (\<forall>j < i. \<not> rule_matches key (getAllRules s ! j))))
   \<and> (\<forall>r. findMatchingRule key endpoint s = Some r \<longrightarrow> rule_enabled r)
   \<and> findMatchingRule key endpoint' s = findMatchingRule key endpoint s
   \<and> (\<forall>r i kt. rule_enabled r \<and> \<lparr>kc_type = kt, kc_value = ''*''\<rparr> \<in> set (rule_keys r)
        \<longrightarrow> findMatchingRule key endpoint \<lparr>svc_cache = [(i, r)], svc_storage = svc_storage s\<rparr>
              = Some r)
   \<and> (\<forall>r i kt. rule_enabled r \<and> rule_keys r = [\<lparr>kc_type = kt, kc_value = ''42''\<rparr>]
        \<longrightarrow> findMatchingRule ''user:42'' endpoint
                \<lparr>svc_cache = [(i, r)], svc_storage = svc_storage s\<rparr> = Some r
            \<and> findMatchingRule ''user:4200'' endpoint
                \<lparr>svc_cache = [(i, r)], svc_storage = svc_storage s\<rparr> = Some r)"
proof -
  let ?rs = "getAllRules s"
  have a: "findMatchingRule key endpoint s = None
      \<longleftrightarrow> (\<forall>r \<in> set ?rs. \<not> rule_matches key r)"
    by (auto simp: findMatchingRule_find find_None_iff)
  have b: "\<forall>r. findMatchingRule key endpoint s = Some r
      \<longleftrightarrow> (\<exists>i < length ?rs. ?rs ! i = r \<and> rule_matches key r
             \<and> (\<forall>j < i. \<not> rule_matches key (?rs ! j)))"
    by (auto simp: findMatchingRule_find find_Some_iff)
  have c: "\<forall>r. findMatchingRule key endpoint s = Some r \<longrightarrow> rule_enabled r"
    using b by (auto simp: rule_matches_def)
  have d: "findMatchingRule key endpoint' s = findMatchingRule key endpoint s"
    by (simp add: findMatchingRule_find)
  have e: "\<forall>r i kt. rule_enabled r \<and> \<lparr>kc_type = kt, kc_value = ''*''\<rparr> \<in> set (rule_keys r)
        \<longrightarrow> findMatchingRule key endpoint \<lparr>svc_cache = [(i, r)], svc_storage = svc_storage s\<rparr>
              = Some r"
  proof (intro allI impI)
    fix r :: Rule and i :: string and kt
    assume h: "rule_enabled r \<and> \<lparr>kc_type = kt, kc_value = ''*''\<rparr> \<in> set (rule_keys r)"
    then have "rule_matches key r" unfolding rule_matches_def by force
    then show "findMatchingRule key endpoint \<lparr>svc_cache = [(i, r)], svc_storage = svc_storage s\<rparr>
              = Some r"
      by (simp add: findMatchingRule_find getAllRules_def cache_getAll_def)
  qed
  have f: "\<forall>r i kt. rule_enabled r \<and> rule_keys r = [\<lparr>kc_type = kt, kc_value = ''42''\<rparr>]
        \<longrightarrow> findMatchingRule ''user:42'' endpoint
                \<lparr>svc_cache = [(i, r)], svc_storage = svc_storage s\<rparr> = Some r
            \<and> findMatchingRule ''user:4200'' endpoint
                \<lparr>svc_cache = [(i, r)], svc_storage = svc_storage s\<rparr> = Some r"
  proof (intro allI impI)
    fix r :: Rule and i :: string and kt
    assume h: "rule_enabled r \<and> rule_keys r = [\<lparr>kc_type = kt, kc_value = ''42''\<rparr>]"
    then have "rule_matches ''user:42'' r" "rule_matches ''user:4200'' r"
      unfolding rule_matches_def using sublist_42_a sublist_42_b by simp_all
    then show "findMatchingRule ''user:42'' endpoint
                \<lparr>svc_cache = [(i, r)], svc_storage = svc_storage s\<rparr> = Some r
            \<and> findMatchingRule ''user:4200'' endpoint
                \<lparr>svc_cache = [(i, r)], svc_storage = svc_storage s\<rparr> = Some r"
      by (simp add: findMatchingRule_find getAllRules_def cache_getAll_def)
  qed
  from a b c d e f show ?thesis by blast
qed

theorem findMatchingRule_first_enabled_match_witness:
  "findMatchingRule ''user:4200'' (Some ''/api'')
     \<lparr>svc_cache = [(''a'', rule_with ''a'' False ''*''), (''b'', rule_with ''b'' True ''77''),
                   (''c'', rule_with ''c'' True ''42''), (''d'', rule_with ''d'' True ''*'')],
      svc_storage = Map.empty\<rparr>
   = Some (rule_with ''c'' True ''42'')
   \<and> rule_enabled (rule_with ''c'' True ''42'')"
proof -
  let ?s = "\<lparr>svc_cache = [(''a'', rule_with ''a'' False ''*''), (''b'', rule_with ''b'' True ''77''),
                   (''c'', rule_with ''c'' True ''42''), (''d'', rule_with ''d'' True ''*'')],
      svc_storage = Map.empty\<rparr>"
  have all: "getAllRules ?s = [rule_with ''a'' False ''*'', rule_with ''b'' True ''77'',
                   rule_with ''c'' True ''42'', rule_with ''d'' True ''*'']"
    by (simp add: getAllRules_def cache_getAll_def)
  have m0: "\<not> rule_matches ''user:4200'' (rule_with ''a'' False ''*'')"
    by (simp add: rule_matches_def rule_with_def)
  have m1: "\<not> rule_matches ''user:4200'' (rule_with ''b'' True ''77'')"
    by (simp add: rule_matches_def rule_with_def sublist_Cons_right)
  have m2: "rule_matches ''user:4200'' (rule_with ''c'' True ''42'')"
    by (simp add: rule_matches_def rule_with_def sublist_Cons_right)
  have "\<exists>i < length (getAllRules ?s). getAllRules ?s ! i = rule_with ''c'' True ''42''
          \<and> rule_matches ''user:4200'' (rule_with ''c'' True ''42'')
          \<and> (\<forall>j < i. \<not> rule_matches ''user:4200'' (getAllRules ?s ! j))"
    unfolding all using m0 m1 m2
    by (intro exI[of _ 2]) (simp add: less_Suc_eq numeral_2_eq_2)
  with findMatchingRule_first_enabled_match[of "''user:4200''" "Some ''/api''" ?s None]
  show ?thesis by blast
qed

section \<open>Orchestrator: the subject key\<close>

lemma show_int_no_colon: "CHR '':'' \<notin> set (show_int i)"
proof
  assume a: "CHR '':'' \<in> set (show_int i)"
  have "CHR '':'' \<notin> set (digits n)" for n
  proof
    assume "CHR '':'' \<in> set (digits n)"
    then have "(of_char CHR '':'' :: nat) \<le> 57" using digits_chars by blast
    then show False by simp
  qed
  with a show False by (auto simp: show_int_def split: if_splits)
qed

lemma append_sep_inj:
  "c \<notin> set ys \<Longrightarrow> c \<notin> set ys' \<Longrightarrow> xs @ c # ys = xs' @ c # ys' \<Longrightarrow> xs = xs' \<and> ys = ys'"
proof (induction xs arbitrary: xs')
  case Nil
  then show ?case by (cases xs') auto
next
  case (Cons a xs)
  then show ?case by (cases xs') auto
qed

lemma window_key_inj:
  assumes "p @ k1 @ '':'' @ show_int w1 = p @ k2 @ '':'' @ show_int w2"
  shows "k1 = k2 \<and> w1 = w2"
proof -
  from assms have "k1 @ CHR '':'' # show_int w1 = k2 @ CHR '':'' # show_int w2" by simp
  from append_sep_inj[OF show_int_no_colon show_int_no_colon this]
  show ?thesis by (auto dest: show_int_inj)
qed

lemma fixed_redisKey_inj2:
  "fixed_redisKey k1 w1 = fixed_redisKey k2 w2 \<longleftrightarrow> k1 = k2 \<and> w1 = w2"
  unfolding fixed_redisKey_def using window_key_inj by blast

lemma sliding_redisKey_inj2:
  "sliding_redisKey k1 w1 = sliding_redisKey k2 w2 \<longleftrightarrow> k1 = k2 \<and> w1 = w2"
  unfolding sliding_redisKey_def using window_key_inj by blast

lemma bucket_redisKey_inj: "bucket_redisKey k1 = bucket_redisKey k2 \<longleftrightarrow> k1 = k2"
  by (simp add: bucket_redisKey_def)

text \<open>
  Claim C5, amended. The key that \<open>RateLimiterService.check\<close> passes to the limiter is
  \<open>key\<close>, \<open>:\<close> and \<open>endpoint\<close> when the endpoint is present and not the empty string, and
  \<open>key\<close> alone when the endpoint is absent or empty. Two requests with the same key and
  different endpoints, at least one of them not empty, get different subject keys, and
  the store keys of all three algorithms derived from them differ as well.
\<close>

theorem fullKey_composition:
  "(\<forall>e. req_endpoint request = Some e \<and> e \<noteq> []
       \<longrightarrow> fullKey_of request = req_key request @ '':'' @ e)
   \<and> (req_endpoint request = None \<or> req_endpoint request = Some []
       \<longrightarrow> fullKey_of request = req_key request)
   \<and> RateLimiterService_check now request s =
       (case resolve request s of
          Inl e \<Rightarrow> Inl e
        | Inr ((algorithm, limit, window), s1) \<Rightarrow>
            perform_check algorithm now
              (case req_endpoint request of
                 None \<Rightarrow> req_key request
               | Some e \<Rightarrow> if e = [] then req_key request else req_key request @ '':'' @ e)
              limit window s1)
   \<and> (\<forall>request'. req_key request' = req_key request
         \<and> req_endpoint request' \<noteq> req_endpoint request
         \<and> (truthy_string (req_endpoint request') \<or> truthy_string (req_endpoint request))
       \<longrightarrow> fullKey_of request' \<noteq> fullKey_of request
           \<and> bucket_redisKey (fullKey_of request') \<noteq> bucket_redisKey (fullKey_of request)
           \<and> (\<forall>w w'. fixed_redisKey (fullKey_of request') w' \<noteq> fixed_redisKey (fullKey_of request) w
                    \<and> sliding_redisKey (fullKey_of request') w'
                        \<noteq> sliding_redisKey (fullKey_of request) w))"
proof -
  have a: "\<forall>e. req_endpoint request = Some e \<and> e \<noteq> []
       \<longrightarrow> fullKey_of request = req_key request @ '':'' @ e"
    by (simp add: fullKey_of_def truthy_string_def)
  have b: "req_endpoint request = None \<or> req_endpoint request = Some []
       \<longrightarrow> fullKey_of request = req_key request"
    by (auto simp: fullKey_of_def truthy_string_def)
  have k: "fullKey_of request = (case req_endpoint request of
                       None \<Rightarrow> req_key request
                     | Some e \<Rightarrow> if e = [] then req_key request else req_key request @ '':'' @ e)"
    by (simp add: fullKey_of_def truthy_string_def split: option.splits)
  have c: "RateLimiterService_check now request s =
       (case resolve request s of
          Inl e \<Rightarrow> Inl e
        | Inr ((algorithm, limit, window), s1) \<Rightarrow>
            perform_check algorithm now
              (case req_endpoint request of
                 None \<Rightarrow> req_key request
               | Some e \<Rightarrow> if e = [] then req_key request else req_key request @ '':'' @ e)
              limit window s1)"
    unfolding RateLimiterService_check_def k ..
  have d: "fullKey_of request' \<noteq> fullKey_of request"
    if "req_key request' = req_key request" "req_endpoint request' \<noteq> req_endpoint request"
       "truthy_string (req_endpoint request') \<or> truthy_string (req_endpoint request)"
    for request'
    using that by (auto simp: fullKey_of_def truthy_string_def split: option.splits if_splits)
  show ?thesis
    using a b c d
    by (simp add: bucket_redisKey_inj fixed_redisKey_inj2 sliding_redisKey_inj2)
qed

theorem fullKey_composition_witness:
  "req_endpoint (inline_request ''user:1'' (Some ''/a'') fixed_window 2 60) = Some ''/a''
   \<and> fullKey_of (inline_request ''user:1'' (Some ''/a'') fixed_window 2 60) = ''user:1:/a''
   \<and> fullKey_of (inline_request ''user:1'' (Some ''/b'') fixed_window 2 60)
       \<noteq> fullKey_of (inline_request ''user:1'' (Some ''/a'') fixed_window 2 60)
   \<and> fixed_redisKey (fullKey_of (inline_request ''user:1'' (Some ''/b'') fixed_window 2 60)) 0
       \<noteq> fixed_redisKey (fullKey_of (inline_request ''user:1'' (Some ''/a'') fixed_window 2 60)) 0"
proof -
  let ?a = "inline_request ''user:1'' (Some ''/a'') fixed_window 2 60"
  let ?b = "inline_request ''user:1'' (Some ''/b'') fixed_window 2 60"
  have e: "req_endpoint ?a = Some ''/a''" "req_key ?a = ''user:1''"
    by (simp_all add: inline_request_def)
  have h: "req_key ?b = req_key ?a \<and> req_endpoint ?b \<noteq> req_endpoint ?a
         \<and> (truthy_string (req_endpoint ?b) \<or> truthy_string (req_endpoint ?a))"
    by (simp add: inline_request_def truthy_string_def)
  from fullKey_composition[of ?a 0 "\<lparr>svc_cache = [], svc_storage = Map.empty\<rparr>"]
  have 1: "\<forall>e. req_endpoint ?a = Some e \<and> e \<noteq> [] \<longrightarrow> fullKey_of ?a = req_key ?a @ '':'' @ e"
    and 2: "\<forall>request'. req_key request' = req_key ?a
         \<and> req_endpoint request' \<noteq> req_endpoint ?a
         \<and> (truthy_string (req_endpoint request') \<or> truthy_string (req_endpoint ?a))
       \<longrightarrow> fullKey_of request' \<noteq> fullKey_of ?a
           \<and> bucket_redisKey (fullKey_of request') \<noteq> bucket_redisKey (fullKey_of ?a)
           \<and> (\<forall>w w'. fixed_redisKey (fullKey_of request') w' \<noteq> fixed_redisKey (fullKey_of ?a) w
                    \<and> sliding_redisKey (fullKey_of request') w'
                        \<noteq> sliding_redisKey (fullKey_of ?a) w)"
    by blast+
  from 1 e have "fullKey_of ?a = ''user:1:/a''" by simp
  moreover from 2 h have "fullKey_of ?b \<noteq> fullKey_of ?a"
    "fixed_redisKey (fullKey_of ?b) 0 \<noteq> fixed_redisKey (fullKey_of ?a) 0" by blast+
  ultimately show ?thesis using e by simp
qed

text \<open>
  Claim C5 as stated fails for an endpoint that is present and empty, which the request
  schema admits: the key passed on is \<open>key\<close> alone, not \<open>key\<close> followed by \<open>:\<close>, and it is
  the subject key of the request without an endpoint.
\<close>

theorem fullKey_empty_endpoint_counterexample:
  "req_endpoint (inline_request ''user:1'' (Some '''') fixed_window 2 60) = Some ''''
   \<and> fullKey_of (inline_request ''user:1'' (Some '''') fixed_window 2 60)
       \<noteq> ''user:1'' @ '':'' @ ''''
   \<and> req_endpoint (inline_request ''user:1'' (Some '''') fixed_window 2 60)
       \<noteq> req_endpoint (inline_request ''user:1'' None fixed_window 2 60)
   \<and> fullKey_of (inline_request ''user:1'' (Some '''') fixed_window 2 60)
       = fullKey_of (inline_request ''user:1'' None fixed_window 2 60)"
  by (simp add: inline_request_def fullKey_of_def truthy_string_def)

section \<open>Orchestrator: which parameters apply\<close>

lemma getRule_absent:
  "cache_get (svc_cache s) ident = None \<Longrightarrow> svc_storage s (rule_redisKey ident) = None
     \<Longrightarrow> getRule ident s = Inr (None, s)"
  by (simp add: getRule_def redis_GET_def)

lemma resolve_ruleId:
  assumes "req_ruleId request = Some ident" "ident \<noteq> []"
  shows "resolve request s =
     (case getRule ident s of
        Inl e \<Rightarrow> Inl e
      | Inr (None, s1) \<Rightarrow> Inl (RuleNotFound ident)
      | Inr (Some rule, s1) \<Rightarrow>
          if \<not> rule_enabled rule then Inl (RuleDisabled ident)
          else Inr ((rule_algorithm rule, rule_limit rule, rule_window rule), s1))"
  using assms by (simp add: resolve_def truthy_string_def split: sum.splits prod.splits option.splits)

lemma resolve_inline:
  assumes "req_ruleId request = None" "req_algorithm request = Some a"
    "req_limit request = Some l" "req_window request = Some w" "l \<noteq> 0" "w \<noteq> 0"
  shows "resolve request s = Inr ((a, l, w), s)"
  using assms by (simp add: resolve_def truthy_string_def truthy_number_def)

lemma resolve_match:
  assumes "req_ruleId request = None"
    "req_algorithm request = None \<or> req_limit request = None \<or> req_window request = None"
  shows "resolve request s =
     (case findMatchingRule (req_key request) (req_endpoint request) s of
        None \<Rightarrow> Inl NoMatchingRule
      | Some rule \<Rightarrow> Inr ((rule_algorithm rule, rule_limit rule, rule_window rule), s))"
  using assms by (auto simp: resolve_def truthy_string_def truthy_number_def)

lemma perform_check_cache:
  "perform_check a now k l w s = Inr (r, s') \<Longrightarrow> svc_cache s' = svc_cache s"
  by (auto simp: perform_check_def split: sum.splits)

text \<open>
  Claim C4. For every request that satisfies \<open>CheckRequestSchema\<close> one of three paths
  decides, in this order. A request with a \<open>ruleId\<close> looks the rule up: the check fails
  with \<open>RuleNotFound\<close> when the lookup finds nothing (as it does when neither the cache
  nor the store has the rule), fails with \<open>RuleDisabled\<close> when the rule is not enabled,
  and otherwise runs the limiter with the rule's algorithm, limit and window. A request
  without \<open>ruleId\<close> that carries algorithm, limit and window runs the limiter with them
  on the state as it is, and leaves the cache of rules as it was. Every other request
  asks the matcher, fails with \<open>NoMatchingRule\<close> when it finds nothing and runs the
  limiter with the matched rule's parameters otherwise.
\<close>

theorem resolution_precedence:
  assumes "CheckRequestSchema_ok uuid_ok request" and "\<not> uuid_ok []"
  shows
   "(\<forall>ident. req_ruleId request = Some ident \<longrightarrow>
        (cache_get (svc_cache s) ident = None \<and> svc_storage s (rule_redisKey ident) = None
           \<longrightarrow> getRule ident s = Inr (None, s))
      \<and> (\<forall>s1. getRule ident s = Inr (None, s1)
           \<longrightarrow> RateLimiterService_check now request s = Inl (RuleNotFound ident))
      \<and> (\<forall>rule s1. getRule ident s = Inr (Some rule, s1) \<and> \<not> rule_enabled rule
           \<longrightarrow> RateLimiterService_check now request s = Inl (RuleDisabled ident))
      \<and> (\<forall>rule s1. getRule ident s = Inr (Some rule, s1) \<and> rule_enabled rule
           \<longrightarrow> RateLimiterService_check now request s =
                 perform_check (rule_algorithm rule) now (fullKey_of request)
                   (rule_limit rule) (rule_window rule) s1))
    \<and> (\<forall>a l w. req_ruleId request = None \<and> req_algorithm request = Some a
           \<and> req_limit request = Some l \<and> req_window request = Some w
        \<longrightarrow> RateLimiterService_check now request s
              = perform_check a now (fullKey_of request) l w s
          \<and> (\<forall>r s'. RateLimiterService_check now request s = Inr (r, s')
                \<longrightarrow> svc_cache s' = svc_cache s))
    \<and> (req_ruleId request = None
         \<and> (req_algorithm request = None \<or> req_limit request = None
             \<or> req_window request = None)
        \<longrightarrow> (findMatchingRule (req_key request) (req_endpoint request) s = None
               \<longrightarrow> RateLimiterService_check now request s = Inl NoMatchingRule)
          \<and> (\<forall>rule. findMatchingRule (req_key request) (req_endpoint request) s = Some rule
               \<longrightarrow> RateLimiterService_check now request s =
                     perform_check (rule_algorithm rule) now (fullKey_of request)
                       (rule_limit rule) (rule_window rule) s))"
proof -
  have p1: "\<forall>ident. req_ruleId request = Some ident \<longrightarrow>
        (cache_get (svc_cache s) ident = None \<and> svc_storage s (rule_redisKey ident) = None
           \<longrightarrow> getRule ident s = Inr (None, s))
      \<and> (\<forall>s1. getRule ident s = Inr (None, s1)
           \<longrightarrow> RateLimiterService_check now request s = Inl (RuleNotFound ident))
      \<and> (\<forall>rule s1. getRule ident s = Inr (Some rule, s1) \<and> \<not> rule_enabled rule
           \<longrightarrow> RateLimiterService_check now request s = Inl (RuleDisabled ident))
      \<and> (\<forall>rule s1. getRule ident s = Inr (Some rule, s1) \<and> rule_enabled rule
           \<longrightarrow> RateLimiterService_check now request s =
                 perform_check (rule_algorithm rule) now (fullKey_of request)
                   (rule_limit rule) (rule_window rule) s1)"
  proof (intro allI impI)
    fix ident assume i: "req_ruleId request = Some ident"
    with assms have "ident \<noteq> []" by (auto simp: CheckRequestSchema_ok_def)
    note r = resolve_ruleId[OF i this, of s]
    show "(cache_get (svc_cache s) ident = None \<and> svc_storage s (rule_redisKey ident) = None
           \<longrightarrow> getRule ident s = Inr (None, s))
      \<and> (\<forall>s1. getRule ident s = Inr (None, s1)
           \<longrightarrow> RateLimiterService_check now request s = Inl (RuleNotFound ident))
      \<and> (\<forall>rule s1. getRule ident s = Inr (Some rule, s1) \<and> \<not> rule_enabled rule
           \<longrightarrow> RateLimiterService_check now request s = Inl (RuleDisabled ident))
      \<and> (\<forall>rule s1. getRule ident s = Inr (Some rule, s1) \<and> rule_enabled rule
           \<longrightarrow> RateLimiterService_check now request s =
                 perform_check (rule_algorithm rule) now (fullKey_of request)
                   (rule_limit rule) (rule_window rule) s1)"
      using getRule_absent[of s ident]
      by (simp add: RateLimiterService_check_def r)
  qed
  have p2: "\<forall>a l w. req_ruleId request = None \<and> req_algorithm request = Some a
           \<and> req_limit request = Some l \<and> req_window request = Some w
        \<longrightarrow> RateLimiterService_check now request s
              = perform_check a now (fullKey_of request) l w s
          \<and> (\<forall>r s'. RateLimiterService_check now request s = Inr (r, s')
                \<longrightarrow> svc_cache s' = svc_cache s)"
  proof (intro allI impI)
    fix a l w
    assume h: "req_ruleId request = None \<and> req_algorithm request = Some a
           \<and> req_limit request = Some l \<and> req_window request = Some w"
    with assms have "l \<noteq> 0" "w \<noteq> 0" by (auto simp: CheckRequestSchema_ok_def)
    with h have "resolve request s = Inr ((a, l, w), s)" by (simp add: resolve_inline)
    then have e: "RateLimiterService_check now request s
              = perform_check a now (fullKey_of request) l w s"
      by (simp add: RateLimiterService_check_def)
    with perform_check_cache
    show "RateLimiterService_check now request s
              = perform_check a now (fullKey_of request) l w s
          \<and> (\<forall>r s'. RateLimiterService_check now request s = Inr (r, s')
                \<longrightarrow> svc_cache s' = svc_cache s)"
      by metis
  qed
  have p3: "req_ruleId request = None
         \<and> (req_algorithm request = None \<or> req_limit request = None
             \<or> req_window request = None)
        \<longrightarrow> (findMatchingRule (req_key request) (req_endpoint request) s = None
               \<longrightarrow> RateLimiterService_check now request s = Inl NoMatchingRule)
          \<and> (\<forall>rule. findMatchingRule (req_key request) (req_endpoint request) s = Some rule
               \<longrightarrow> RateLimiterService_check now request s =
                     perform_check (rule_algorithm rule) now (fullKey_of request)
                       (rule_limit rule) (rule_window rule) s)"
  proof (intro impI)
    assume h: "req_ruleId request = None
         \<and> (req_algorithm request = None \<or> req_limit request = None
             \<or> req_window request = None)"
    then have r: "resolve request s =
     (case findMatchingRule (req_key request) (req_endpoint request) s of
        None \<Rightarrow> Inl NoMatchingRule
      | Some rule \<Rightarrow> Inr ((rule_algorithm rule, rule_limit rule, rule_window rule), s))"
      using resolve_match[of request s] by blast
    show "(findMatchingRule (req_key request) (req_endpoint request) s = None
               \<longrightarrow> RateLimiterService_check now request s = Inl NoMatchingRule)
          \<and> (\<forall>rule. findMatchingRule (req_key request) (req_endpoint request) s = Some rule
               \<longrightarrow> RateLimiterService_check now request s =
                     perform_check (rule_algorithm rule) now (fullKey_of request)
                       (rule_limit rule) (rule_window rule) s)"
      by (simp add: RateLimiterService_check_def r)
  qed
  from p1 p2 p3 show ?thesis by blast
qed

theorem resolution_precedence_witness:
  "CheckRequestSchema_ok (\<lambda>i. length i = 36)
     \<lparr>req_key = ''user:1'', req_endpoint = None,
      req_ruleId = Some ''123e4567-e89b-12d3-a456-426614174000'',
      req_algorithm = Some token_bucket, req_limit = Some 5, req_window = Some 60\<rparr>
   \<and> length ([] :: string) \<noteq> 36
   \<and> RateLimiterService_check 0
       \<lparr>req_key = ''user:1'', req_endpoint = None,
        req_ruleId = Some ''123e4567-e89b-12d3-a456-426614174000'',
        req_algorithm = Some token_bucket, req_limit = Some 5, req_window = Some 60\<rparr>
       \<lparr>svc_cache = [(''123e4567-e89b-12d3-a456-426614174000'',
                      rule_with ''123e4567-e89b-12d3-a456-426614174000'' False ''*'')],
        svc_storage = Map.empty\<rparr>
     = Inl (RuleDisabled ''123e4567-e89b-12d3-a456-426614174000'')"
proof -
  let ?id = "''123e4567-e89b-12d3-a456-426614174000''"
  let ?req = "\<lparr>req_key = ''user:1'', req_endpoint = None, req_ruleId = Some ?id,
      req_algorithm = Some token_bucket, req_limit = Some 5, req_window = Some 60\<rparr>"
  let ?s = "\<lparr>svc_cache = [(?id, rule_with ?id False ''*'')], svc_storage = Map.empty\<rparr>"
  have ok: "CheckRequestSchema_ok (\<lambda>i. length i = 36) ?req"
    by (simp add: CheckRequestSchema_ok_def)
  have ne: "\<not> (\<lambda>i. length i = 36) ([] :: string)" by simp
  have g: "getRule ?id ?s = Inr (Some (rule_with ?id False ''*''), ?s)"
    by (simp add: getRule_def cache_get_def)
  have d: "\<not> rule_enabled (rule_with ?id False ''*'')" by (simp add: rule_with_def)
  have i: "req_ruleId ?req = Some ?id" by simp
  from resolution_precedence[OF ok ne, of ?s 0] i g d
  have "RateLimiterService_check 0 ?req ?s = Inl (RuleDisabled ?id)" by blast
  with ok show ?thesis by simp
qed

section \<open>Rule service: create and read back\<close>

lemma cache_get_set: "cache_get (cache_set c rule) (rule_id rule) = Some rule"
  by (simp add: cache_get_def cache_set_def update_conv')

lemma cache_getAll_set: "rule \<in> set (cache_getAll (cache_set c rule))"
proof -
  have "map_of (AList.update (rule_id rule) rule c) (rule_id rule) = Some rule"
    by (simp add: update_conv')
  then have "(rule_id rule, rule) \<in> set (AList.update (rule_id rule) rule c)"
    by (rule map_of_SomeD)
  then show ?thesis unfolding cache_getAll_def cache_set_def by force
qed

lemma cache_wf_set: "cache_wf c \<Longrightarrow> cache_wf (cache_set c rule)"
proof -
  assume wf: "cache_wf c"
  have d: "distinct (map fst (AList.update (rule_id rule) rule c))"
    using wf by (simp add: cache_wf_def distinct_update)
  have "\<forall>(k, r) \<in> set (AList.update (rule_id rule) rule c). rule_id r = k"
  proof (clarify)
    fix k r assume m: "(k, r) \<in> set (AList.update (rule_id rule) rule c)"
    with d have "map_of (AList.update (rule_id rule) rule c) k = Some r" by simp
    then have e: "((map_of c)(rule_id rule \<mapsto> rule)) k = Some r" by (simp add: update_conv')
    show "rule_id r = k"
    proof (cases "k = rule_id rule")
      case True
      with e show ?thesis by simp
    next
      case False
      with e have "map_of c k = Some r" by simp
      then have "(k, r) \<in> set c" by (rule map_of_SomeD)
      with wf show ?thesis by (auto simp: cache_wf_def)
    qed
  qed
  with d show ?thesis by (simp add: cache_wf_def cache_set_def)
qed

lemma cache_wf_unique:
  assumes "cache_wf c" "r \<in> set (cache_getAll c)" "cache_get c (rule_id r) = Some rule"
  shows "r = rule"
proof -
  from assms(2) obtain k where "(k, r) \<in> set c" by (auto simp: cache_getAll_def)
  with assms(1) have "(rule_id r, r) \<in> set c" "distinct (map fst c)"
    by (auto simp: cache_wf_def)
  then have "map_of c (rule_id r) = Some r" by simp
  with assms(3) show ?thesis by (simp add: cache_get_def)
qed

lemma RuleSchema_parse_created:
  assumes "CreateRuleSchema_ok uuid_ok url_ok request" "uuid_ok uuid" "\<not> uuid_ok []"
  shows "RuleSchema_parse uuid_ok url_ok
     \<lparr>rule_id = (case cr_id request of Some i \<Rightarrow> if i \<noteq> [] then i else uuid | None \<Rightarrow> uuid),
      rule_name = cr_name request, rule_algorithm = cr_algorithm request,
      rule_limit = cr_limit request, rule_window = cr_window request,
      rule_keys = cr_keys request, rule_webhookUrl = cr_webhookUrl request,
      rule_thresholds = (case cr_thresholds request of Some ts \<Rightarrow> ts | None \<Rightarrow> [80, 90, 100]),
      rule_enabled = (case cr_enabled request of Some b \<Rightarrow> b | None \<Rightarrow> True),
      rule_createdAt = Some t1, rule_updatedAt = Some t2\<rparr>
   = Inr \<lparr>rule_id = (case cr_id request of Some i \<Rightarrow> i | None \<Rightarrow> uuid),
      rule_name = cr_name request, rule_algorithm = cr_algorithm request,
      rule_limit = cr_limit request, rule_window = cr_window request,
      rule_keys = cr_keys request, rule_webhookUrl = cr_webhookUrl request,
      rule_thresholds = (case cr_thresholds request of Some ts \<Rightarrow> ts | None \<Rightarrow> [80, 90, 100]),
      rule_enabled = (case cr_enabled request of Some b \<Rightarrow> b | None \<Rightarrow> True),
      rule_createdAt = Some t1, rule_updatedAt = Some t2\<rparr>"
  using assms
  by (auto simp: RuleSchema_parse_def CreateRuleSchema_ok_def split: option.splits)

text \<open>
  Claim C8. For every request that satisfies \<open>CreateRuleSchema\<close>, \<open>createRule\<close> returns a
  rule; \<open>getRule\<close> on the id of that rule returns the same rule, the list of all rules
  contains it (and, in a cache built by \<open>cache_set\<close>, no other rule with that id), and
  the store holds it under the rule's key. The rule has the fields of the request, the
  id of the request or else the generated one, the thresholds of the request or else
  \<open>[80, 90, 100]\<close>, \<open>enabled\<close> of the request or else true, and the two timestamps.
\<close>

theorem create_read_roundtrip:
  assumes "CreateRuleSchema_ok uuid_ok url_ok request" and "uuid_ok uuid" and "\<not> uuid_ok []"
  shows "\<exists>rule s'. createRule uuid_ok url_ok uuid t1 t2 request s = Inr (rule, s')
      \<and> getRule (rule_id rule) s' = Inr (Some rule, s')
      \<and> rule \<in> set (getAllRules s')
      \<and> (cache_wf (svc_cache s)
           \<longrightarrow> (\<forall>r \<in> set (getAllRules s'). rule_id r = rule_id rule \<longrightarrow> r = rule))
      \<and> svc_storage s' (rule_redisKey (rule_id rule)) = Some (RuleJson rule, None)
      \<and> rule = \<lparr>rule_id = (case cr_id request of Some i \<Rightarrow> i | None \<Rightarrow> uuid),
                 rule_name = cr_name request, rule_algorithm = cr_algorithm request,
                 rule_limit = cr_limit request, rule_window = cr_window request,
                 rule_keys = cr_keys request, rule_webhookUrl = cr_webhookUrl request,
                 rule_thresholds = (case cr_thresholds request of
                                      Some ts \<Rightarrow> ts | None \<Rightarrow> [80, 90, 100]),
                 rule_enabled = (case cr_enabled request of Some b \<Rightarrow> b | None \<Rightarrow> True),
                 rule_createdAt = Some t1, rule_updatedAt = Some t2\<rparr>"
proof -
  let ?rule = "\<lparr>rule_id = (case cr_id request of Some i \<Rightarrow> i | None \<Rightarrow> uuid),
                 rule_name = cr_name request, rule_algorithm = cr_algorithm request,
                 rule_limit = cr_limit request, rule_window = cr_window request,
                 rule_keys = cr_keys request, rule_webhookUrl = cr_webhookUrl request,
                 rule_thresholds = (case cr_thresholds request of
                                      Some ts \<Rightarrow> ts | None \<Rightarrow> [80, 90, 100]),
                 rule_enabled = (case cr_enabled request of Some b \<Rightarrow> b | None \<Rightarrow> True),
                 rule_createdAt = Some t1, rule_updatedAt = Some t2\<rparr>"
  let ?s' = "\<lparr>svc_cache = cache_set (svc_cache s) ?rule,
             svc_storage = storage_set (svc_storage s) (rule_redisKey (rule_id ?rule))
                             (RuleJson ?rule)\<rparr>"
  have c: "createRule uuid_ok url_ok uuid t1 t2 request s = Inr (?rule, ?s')"
    unfolding createRule_def Let_def RuleSchema_parse_created[OF assms] by simp
  have g: "getRule (rule_id ?rule) ?s' = Inr (Some ?rule, ?s')"
    using cache_get_set[of "svc_cache s" ?rule] by (simp add: getRule_def)
  have l: "?rule \<in> set (getAllRules ?s')"
    using cache_getAll_set[of ?rule "svc_cache s"] by (simp add: getAllRules_def)
  have u: "cache_wf (svc_cache s)
           \<longrightarrow> (\<forall>r \<in> set (getAllRules ?s'). rule_id r = rule_id ?rule \<longrightarrow> r = ?rule)"
  proof (intro impI ballI)
    fix r
    assume wf: "cache_wf (svc_cache s)" and r: "r \<in> set (getAllRules ?s')"
      and i: "rule_id r = rule_id ?rule"
    have "cache_wf (cache_set (svc_cache s) ?rule)" using wf by (rule cache_wf_set)
    moreover have "r \<in> set (cache_getAll (cache_set (svc_cache s) ?rule))"
      using r by (simp add: getAllRules_def)
    moreover have "cache_get (cache_set (svc_cache s) ?rule) (rule_id r) = Some ?rule"
      using cache_get_set[of "svc_cache s" ?rule] i by simp
    ultimately show "r = ?rule" by (rule cache_wf_unique)
  qed
  have p: "svc_storage ?s' (rule_redisKey (rule_id ?rule)) = Some (RuleJson ?rule, None)"
    by (simp add: storage_set_def)
  from c g l u p show ?thesis by blast
qed

theorem create_read_roundtrip_witness:
  "CreateRuleSchema_ok (\<lambda>i. length i = 36) (\<lambda>u. take 8 u = ''https://'')
     \<lparr>cr_id = None, cr_name = ''api'', cr_algorithm = sliding_window, cr_limit = 100,
      cr_window = 60, cr_keys = [\<lparr>kc_type = KT_ip, kc_value = ''*''\<rparr>],
      cr_webhookUrl = Some ''https://hooks.example/x'', cr_thresholds = None,
      cr_enabled = None\<rparr>
   \<and> length ''123e4567-e89b-12d3-a456-426614174000'' = 36
   \<and> length ([] :: string) \<noteq> 36
   \<and> cache_wf []
   \<and> (\<exists>rule s'.
         createRule (\<lambda>i. length i = 36) (\<lambda>u. take 8 u = ''https://'')
           ''123e4567-e89b-12d3-a456-426614174000'' 1000 1001
           \<lparr>cr_id = None, cr_name = ''api'', cr_algorithm = sliding_window, cr_limit = 100,
            cr_window = 60, cr_keys = [\<lparr>kc_type = KT_ip, kc_value = ''*''\<rparr>],
            cr_webhookUrl = Some ''https://hooks.example/x'', cr_thresholds = None,
            cr_enabled = None\<rparr>
           \<lparr>svc_cache = [], svc_storage = Map.empty\<rparr> = Inr (rule, s')
       \<and> getRule (rule_id rule) s' = Inr (Some rule, s')
       \<and> rule \<in> set (getAllRules s')
       \<and> (\<forall>r \<in> set (getAllRules s'). rule_id r = rule_id rule \<longrightarrow> r = rule)
       \<and> rule_id rule = ''123e4567-e89b-12d3-a456-426614174000''
       \<and> rule_thresholds rule = [80, 90, 100]
       \<and> rule_enabled rule
       \<and> rule_createdAt rule = Some 1000 \<and> rule_updatedAt rule = Some 1001)"
proof -
  let ?req = "\<lparr>cr_id = None, cr_name = ''api'', cr_algorithm = sliding_window, cr_limit = 100,
      cr_window = 60, cr_keys = [\<lparr>kc_type = KT_ip, kc_value = ''*''\<rparr>],
      cr_webhookUrl = Some ''https://hooks.example/x'', cr_thresholds = None,
      cr_enabled = None\<rparr>"
  let ?u = "\<lambda>i :: string. length i = 36"
  let ?w = "\<lambda>u :: string. take 8 u = ''https://''"
  have ok: "CreateRuleSchema_ok ?u ?w ?req" by (simp add: CreateRuleSchema_ok_def)
  have g: "?u ''123e4567-e89b-12d3-a456-426614174000''" by simp
  have n: "\<not> ?u []" by simp
  have wf: "cache_wf []" by (simp add: cache_wf_def)
  from create_read_roundtrip[OF ok g n, of 1000 1001 "\<lparr>svc_cache = [], svc_storage = Map.empty\<rparr>"]
  obtain rule s' where c:
    "createRule ?u ?w ''123e4567-e89b-12d3-a456-426614174000'' 1000 1001 ?req
       \<lparr>svc_cache = [], svc_storage = Map.empty\<rparr> = Inr (rule, s')"
    and r: "getRule (rule_id rule) s' = Inr (Some rule, s')"
    and l: "rule \<in> set (getAllRules s')"
    and q: "cache_wf (svc_cache \<lparr>svc_cache = [], svc_storage = Map.empty\<rparr>)
       \<longrightarrow> (\<forall>r \<in> set (getAllRules s'). rule_id r = rule_id rule \<longrightarrow> r = rule)"
    and e: "rule = \<lparr>rule_id = (case cr_id ?req of Some i \<Rightarrow> i
                         | None \<Rightarrow> ''123e4567-e89b-12d3-a456-426614174000''),
                 rule_name = cr_name ?req, rule_algorithm = cr_algorithm ?req,
                 rule_limit = cr_limit ?req, rule_window = cr_window ?req,
                 rule_keys = cr_keys ?req, rule_webhookUrl = cr_webhookUrl ?req,
                 rule_thresholds = (case cr_thresholds ?req of
                                      Some ts \<Rightarrow> ts | None \<Rightarrow> [80, 90, 100]),
                 rule_enabled = (case cr_enabled ?req of Some b \<Rightarrow> b | None \<Rightarrow> True),
                 rule_createdAt = Some 1000, rule_updatedAt = Some 1001\<rparr>"
    by blast
  from q wf have q': "\<forall>r \<in> set (getAllRules s'). rule_id r = rule_id rule \<longrightarrow> r = rule"
    by simp
  have f: "rule_id rule = ''123e4567-e89b-12d3-a456-426614174000''"
    "rule_thresholds rule = [80, 90, 100]" "rule_enabled rule"
    "rule_createdAt rule = Some 1000" "rule_updatedAt rule = Some 1001"
    by (simp_all add: e)
  from c r l q' f
  have "createRule ?u ?w ''123e4567-e89b-12d3-a456-426614174000'' 1000 1001 ?req
           \<lparr>svc_cache = [], svc_storage = Map.empty\<rparr> = Inr (rule, s')
       \<and> getRule (rule_id rule) s' = Inr (Some rule, s')
       \<and> rule \<in> set (getAllRules s')
       \<and> (\<forall>r \<in> set (getAllRules s'). rule_id r = rule_id rule \<longrightarrow> r = rule)
       \<and> rule_id rule = ''123e4567-e89b-12d3-a456-426614174000''
       \<and> rule_thresholds rule = [80, 90, 100]
       \<and> rule_enabled rule
       \<and> rule_createdAt rule = Some 1000 \<and> rule_updatedAt rule = Some 1001"
    by - (intro conjI; assumption)
  then have ex: "\<exists>rule s'.
         createRule ?u ?w ''123e4567-e89b-12d3-a456-426614174000'' 1000 1001 ?req
           \<lparr>svc_cache = [], svc_storage = Map.empty\<rparr> = Inr (rule, s')
       \<and> getRule (rule_id rule) s' = Inr (Some rule, s')
       \<and> rule \<in> set (getAllRules s')
       \<and> (\<forall>r \<in> set (getAllRules s'). rule_id r = rule_id rule \<longrightarrow> r = rule)
       \<and> rule_id rule = ''123e4567-e89b-12d3-a456-426614174000''
       \<and> rule_thresholds rule = [80, 90, 100]
       \<and> rule_enabled rule
       \<and> rule_createdAt rule = Some 1000 \<and> rule_updatedAt rule = Some 1001"
    by - (rule exI[of _ rule], rule exI[of _ s'], assumption)
  have len: "length ''123e4567-e89b-12d3-a456-426614174000'' = 36" "length ([] :: string) \<noteq> 36"
    by simp_all
  from ok len wf ex show ?thesis by - (intro conjI; assumption)
qed

section \<open>Sliding window: the weighted estimate decides\<close>






lemma sliding_rounded_estimate:
  "fadd (fmul 5 (fsub 1 (fdiv 800 1000))) 0 < 1"
  "\<lfloor>fadd (fmul 10 (fsub 1 (fdiv 900 1000))) 0\<rfloor> = 0"
  by code_simp+

section \<open>Token bucket: the script against the specification\<close>








lemma fops_ten:
  "fdiv 10 10 = 1" "fdiv 0 1000 = 0" "fmul 0 1 = 0" "fdiv 1000 1000 = 1" "fmul 1 1 = 1"
  by (simp_all add: fdiv_def fmul_def round_double_zero round_double_small_ints)







lemma token_bucket_rounded_refill:
  "fadd 0 (fmul (fdiv 1900 1000) (fdiv 10 19)) < 1"
  by code_simp

lemma token_bucket_rounded_refill_denied:
  "fst (spec_token_bucket 10 19 1900 (Some (0, 0))) = False"
  using token_bucket_rounded_refill
  by (simp add: spec_token_bucket_def Let_def)

section \<open>Token bucket under a clock that steps back\<close>

lemma fops_backwards:
  "fdiv 1 1 = 1" "fadd 1 0 = 1" "fsub 1 1 = 0" "fdiv (- 1000) 1000 = - 1"
  "fmul (- 1) 1 = - 1" "fadd 0 (- 1) = - 1" "fdiv 2 1 = 2"
  by (simp_all add: fdiv_def fadd_def fsub_def fmul_def round_double_zero
      round_double_small_ints)

lemma backwards_clock_run:
  "bucket_run ''u'' 1 1 [1000, 0] Map.empty =
     Inr ([\<lparr>res_allowed = True, res_limit = 1, res_remaining = 0, res_resetAt = 2000,
             res_retryAfter = None, res_currentUsage = 1\<rparr>,
           \<lparr>res_allowed = False, res_limit = 1, res_remaining = - 1, res_resetAt = 1000,
             res_retryAfter = Some 2, res_currentUsage = 2\<rparr>],
          Map.empty(bucket_redisKey ''u'' \<mapsto> (Bucket (- 1) 0, Some 2)))"
proof -
  have f: "\<lfloor>- 1 :: rat\<rfloor> = - 1" "\<lceil>- 1 :: rat\<rceil> = - 1"
    using floor_of_int[of "- 1", where ?'a = rat] ceiling_of_int[of "- 1", where ?'a = rat]
    by simp_all
  show ?thesis
    by (simp add: TokenBucketLimiter_check_def token_bucket_script_def redis_HMGET_def
        redis_HMSET_def redis_EXPIRE_def reply_integer_def Let_def f fops_ten fops_backwards)
qed

text \<open>
  Claim C10 says that the tokens in the store stay in \<open>[0, limit]\<close>. The script caps them
  at \<open>limit\<close> and takes a token only when there is one, but adds a negative refill when
  \<open>now\<close> is behind \<open>last_update\<close>. With limit 1 and window 1, a check at 1000 followed by
  a check whose clock reads 0 leaves \<open>- 1\<close> token in the store.
\<close>

theorem token_bucket_negative_tokens:
  "tokens_after ''u'' (bucket_run ''u'' 1 1 [1000, 0] Map.empty) = Inr (Some (- 1))"
  unfolding backwards_clock_run by (simp add: tokens_after_def stored_tokens_def)

text \<open>
  Claim C9 says that every result has \<open>remaining \<ge> 0\<close>. The window limiters clamp
  \<open>remaining\<close> with \<open>Math.max(0, ...)\<close>; the token bucket returns \<open>math.floor(remaining)\<close>
  as it is. With limit 1 and window 1, a check at 1000 followed by a check whose clock
  reads 0 returns \<open>remaining = - 1\<close>: the refill \<open>elapsed * rate\<close> is negative when \<open>now\<close> is
  behind \<open>last_update\<close>.
\<close>

theorem token_bucket_negative_remaining:
  "remainings (bucket_run ''u'' 1 1 [1000, 0] Map.empty) = Inr [0, - 1]"
  unfolding backwards_clock_run by (simp add: remainings_def)

lemma fixed_result_shape:
  assumes "FixedWindowLimiter_check now key limit window st = Inr (r, st')"
  shows "0 \<le> res_remaining r \<and> (res_allowed r \<longrightarrow> res_retryAfter r = None)"
proof (cases "fixed_window_script (fixed_redisKey key (windowStart_of now window)) limit window st")
  case (Inl e)
  with assms show ?thesis by (simp add: FixedWindowLimiter_check_def Let_def)
next
  case (Inr x)
  obtain a c s1 where x: "x = ((a, c), s1)" by (metis surj_pair)
  with Inr assms show ?thesis by (auto simp: FixedWindowLimiter_check_def Let_def)
qed

lemma sliding_result_shape:
  assumes "SlidingWindowLimiter_check now key limit window st = Inr (r, st')"
  shows "0 \<le> res_remaining r \<and> (res_allowed r \<longrightarrow> res_retryAfter r = None)"
proof (cases "sliding_window_script (sliding_redisKey key (windowStart_of now window))
    (sliding_redisKey key (windowStart_of now window - window * 1000)) limit window now
    (windowStart_of now window) st")
  case (Inl e)
  with assms show ?thesis by (simp add: SlidingWindowLimiter_check_def Let_def)
next
  case (Inr x)
  obtain a c n s1 where x: "x = ((a, c, n), s1)" by (metis surj_pair)
  with Inr assms show ?thesis by (auto simp: SlidingWindowLimiter_check_def Let_def)
qed

lemma bucket_result_retry:
  assumes "TokenBucketLimiter_check now key limit window st = Inr (r, st')"
  shows "res_allowed r \<longrightarrow> res_retryAfter r = None"
proof (cases "token_bucket_script (bucket_redisKey key) limit window now st")
  case (Inl e)
  with assms show ?thesis by (simp add: TokenBucketLimiter_check_def Let_def)
next
  case (Inr x)
  obtain a c n s1 where x: "x = ((a, c, n), s1)" by (metis surj_pair)
  with Inr assms show ?thesis by (auto simp: TokenBucketLimiter_check_def Let_def)
qed

end
